theory Spec2Isabelle
  imports Main "HOL-Library.Sublist"
begin

section \<open>JavaScript values, references and arrays\<close>

text \<open>
  Objects of the program are referred to by reference: an Engine, a System, an Entity, a
  listener and an array each have an identity, and \<open>indexOf\<close> compares identities.
  References are natural numbers; the objects that the Engine mutates live in a store
  (\<open>world\<close>, below).
\<close>

type_synonym eid = nat
type_synonym sid = nat
type_synonym entity = nat
type_synonym lid = nat
type_synonym addr = nat

text \<open>A value of the enumeration object, or a key given to \<open>buildEntity\<close>
  (\<open>string | number\<close>); numbers are the integers an enumeration holds.\<close>

datatype jsval = JNum int | JStr string

datatype error =
    InvalidBlueprintType jsval
  | UnknownBlueprint jsval
  | CyclicBlueprintInheritance
  | TypeError

datatype event = EntityAdded lid entity | EntityRemoved lid entity

text \<open>\<open>Array.prototype.indexOf\<close>: the first index holding the element, or \<open>-1\<close>.\<close>

fun indexOf_from :: "'a list \<Rightarrow> 'a \<Rightarrow> int \<Rightarrow> int" where
  "indexOf_from [] x i = - 1"
| "indexOf_from (y # ys) x i = (if y = x then i else indexOf_from ys x (i + 1))"

definition indexOf :: "'a list \<Rightarrow> 'a \<Rightarrow> int" where
  "indexOf xs x = indexOf_from xs x 0"

text \<open>\<open>xs.splice(index, 1)\<close> for an index that \<open>indexOf\<close> returned.\<close>

definition splice1 :: "'a list \<Rightarrow> int \<Rightarrow> 'a list" where
  "splice1 xs index = take (nat index) xs @ drop (Suc (nat index)) xs"

text \<open>Truthiness of a property read: \<open>undefined\<close>, \<open>0\<close> and the empty string are falsy.\<close>

fun truthy :: "jsval option \<Rightarrow> bool" where
  "truthy None = False"
| "truthy (Some (JNum n)) = (n \<noteq> 0)"
| "truthy (Some (JStr s)) = (s \<noteq> [])"

text \<open>A property key: a number used as a key is its decimal string.\<close>

fun digits :: "nat \<Rightarrow> string" where
  "digits n =
     (if n < 10 then [''0123456789'' ! n]
      else digits (n div 10) @ [''0123456789'' ! (n mod 10)])"

declare digits.simps [simp del]

fun propertyKey :: "jsval \<Rightarrow> string" where
  "propertyKey (JStr s) = s"
| "propertyKey (JNum n) = (if n < 0 then CHR ''-'' # digits (nat (- n)) else digits (nat n))"

section \<open>Blueprints, components and the EntityFactory\<close>

text \<open>
  A component class has a name, an optional tag and a constructor without arguments;
  \<open>cc_new\<close> is the instance the constructor returns, as a map from field names to values.
  A blueprint component pairs a class with optional \<open>values\<close>. A blueprint has a name, its
  components and the optional names of its parents; \<open>bp_ref\<close> is the identity of the
  blueprint object, which the \<open>indexOf\<close> of \<open>addBlueprint\<close> compares.
\<close>

type_synonym fields = "string \<rightharpoonup> jsval"

record componentClass =
  cc_name :: string
  cc_tag :: "string option"
  cc_new :: fields

record blueprintComponent =
  component :: componentClass
  values_of :: "fields option"

record blueprint =
  bp_ref :: nat
  bp_name :: string
  bp_components :: "blueprintComponent list"
  bp_blueprints :: "string list option"

text \<open>An Entity built by the factory: one component instance per component name.\<close>

type_synonym entity_value = "string \<rightharpoonup> fields"

record entityFactory =
  ef_blueprints :: "blueprint list"
  ef_components :: "componentClass list"

section \<open>Systems, Engines and the store\<close>

text \<open>
  A System holds \<open>_priority\<close> (a number; priorities are integers) and \<open>_engines\<close>. An
  Engine holds the fields of the class. \<open>_entities\<close> is the address of an array of the
  store, because the accessor \<open>entities\<close> copies that array and hands the copy out.
  \<open>_entityListeners\<close> and \<open>_systems\<close> are private arrays to which nothing else refers,
  so they are lists held in the record. \<open>entityFactory\<close> is \<open>None\<close> until \<open>start\<close> sets
  it, and \<open>blueprintTypes\<close> is \<open>None\<close> when the constructor was given no enumeration.
\<close>

record system =
  s_priority :: int
  s_engines :: "eid list"

record engine =
  e_entities :: addr
  e_entityListeners :: "lid list"
  e_systems :: "sid list"
  e_systemsNeedSorting :: bool
  e_entityFactory :: "entityFactory option"
  e_blueprintTypes :: "(string \<rightharpoonup> jsval) option"
  e_blueprints :: "blueprint list"
  e_components :: "componentClass list"

text \<open>
  The store. \<open>arrays\<close> holds the \<open>Entity[]\<close> arrays (an Engine's \<open>_entities\<close> and the copies
  that the \<open>entities\<close> accessor hands out), \<open>frozen\<close> the arrays on which
  \<open>Object.freeze\<close> was called, \<open>next_addr\<close> the next unused array address. \<open>events\<close> is
  the sequence of listener notifications made so far: a listener is an object outside the
  Engine, and a call of \<open>onEntityAdded\<close> or \<open>onEntityRemoved\<close> is recorded as an event.
\<close>

record world =
  engine_of :: "eid \<Rightarrow> engine"
  system_of :: "sid \<Rightarrow> system"
  arrays :: "addr \<Rightarrow> entity list"
  frozen :: "addr \<Rightarrow> bool"
  next_addr :: addr
  events :: "event list"

definition upd_engine :: "eid \<Rightarrow> (engine \<Rightarrow> engine) \<Rightarrow> world \<Rightarrow> world" where
  "upd_engine e f w = w\<lparr>engine_of := (engine_of w)(e := f (engine_of w e))\<rparr>"

definition upd_system :: "sid \<Rightarrow> (system \<Rightarrow> system) \<Rightarrow> world \<Rightarrow> world" where
  "upd_system s f w = w\<lparr>system_of := (system_of w)(s := f (system_of w s))\<rparr>"

text \<open>\<open>push\<close> and \<open>splice\<close> on an array of the store; a frozen array rejects both.\<close>

definition array_push :: "addr \<Rightarrow> entity \<Rightarrow> world \<Rightarrow> error + world" where
  "array_push a x w =
     (if frozen w a then Inl TypeError
      else Inr (w\<lparr>arrays := (arrays w)(a := arrays w a @ [x])\<rparr>))"

definition array_splice1 :: "addr \<Rightarrow> int \<Rightarrow> world \<Rightarrow> error + world" where
  "array_splice1 a index w =
     (if frozen w a then Inl TypeError
      else Inr (w\<lparr>arrays := (arrays w)(a := splice1 (arrays w a) index)\<rparr>))"

text \<open>\<open>Object.freeze(xs.slice(0))\<close>: a new array with the same elements, frozen.\<close>

definition frozen_slice :: "addr \<Rightarrow> world \<Rightarrow> addr \<times> world" where
  "frozen_slice a w =
     (let b = next_addr w
      in (b, w\<lparr>arrays := (arrays w)(b := arrays w a),
               frozen := (frozen w)(b := True),
               next_addr := Suc b\<rparr>))"

subsection \<open>System\<close>

text \<open>\<open>new System()\<close>, \<open>onAttach\<close>, \<open>onDetach\<close>.\<close>

definition System_new :: "sid \<Rightarrow> world \<Rightarrow> world" where
  "System_new s w = upd_system s (\<lambda>_. \<lparr>s_priority = 0, s_engines = []\<rparr>) w"

definition onAttach :: "sid \<Rightarrow> eid \<Rightarrow> world \<Rightarrow> world" where
  "onAttach s e w =
     (if indexOf (s_engines (system_of w s)) e = - 1
      then upd_system s (\<lambda>r. r\<lparr>s_engines := s_engines r @ [e]\<rparr>) w
      else w)"

definition onDetach :: "sid \<Rightarrow> eid \<Rightarrow> world \<Rightarrow> world" where
  "onDetach s e w =
     (let index = indexOf (s_engines (system_of w s)) e
      in if index \<noteq> - 1
         then upd_system s (\<lambda>r. r\<lparr>s_engines := splice1 (s_engines r) index\<rparr>) w
         else w)"

subsection \<open>Engine\<close>

definition Engine_new ::
  "eid \<Rightarrow> componentClass list \<Rightarrow> (string \<rightharpoonup> jsval) option \<Rightarrow> world \<Rightarrow> world" where
  "Engine_new e comps types w =
     (let a = next_addr w
      in w\<lparr>engine_of := (engine_of w)(e :=
               \<lparr>e_entities = a, e_entityListeners = [], e_systems = [],
                e_systemsNeedSorting = False, e_entityFactory = None,
                e_blueprintTypes = types, e_blueprints = [], e_components = comps\<rparr>),
            arrays := (arrays w)(a := []),
            frozen := (frozen w)(a := False),
            next_addr := Suc a\<rparr>)"

definition notifyPriorityChange :: "eid \<Rightarrow> sid \<Rightarrow> world \<Rightarrow> world" where
  "notifyPriorityChange e s w = upd_engine e (\<lambda>r. r\<lparr>e_systemsNeedSorting := True\<rparr>) w"

text \<open>The setter of \<open>System.priority\<close>: store the value, then notify each attached Engine.\<close>

definition set_priority :: "sid \<Rightarrow> int \<Rightarrow> world \<Rightarrow> world" where
  "set_priority s v w =
     (let w1 = upd_system s (\<lambda>r. r\<lparr>s_priority := v\<rparr>) w
      in fold (\<lambda>e. notifyPriorityChange e s) (s_engines (system_of w1 s)) w1)"

text \<open>The accessor \<open>entities\<close>: the address of a frozen copy.\<close>

definition get_entities :: "eid \<Rightarrow> world \<Rightarrow> addr \<times> world" where
  "get_entities e w = frozen_slice (e_entities (engine_of w e)) w"

definition addEntityListener :: "eid \<Rightarrow> lid \<Rightarrow> world \<Rightarrow> world" where
  "addEntityListener e l w =
     (if indexOf (e_entityListeners (engine_of w e)) l = - 1
      then upd_engine e (\<lambda>r. r\<lparr>e_entityListeners := e_entityListeners r @ [l]\<rparr>) w
      else w)"

definition removeEntityListener :: "eid \<Rightarrow> lid \<Rightarrow> world \<Rightarrow> world" where
  "removeEntityListener e l w =
     (let index = indexOf (e_entityListeners (engine_of w e)) l
      in if index \<noteq> - 1
         then upd_engine e (\<lambda>r. r\<lparr>e_entityListeners := splice1 (e_entityListeners r) index\<rparr>) w
         else w)"

text \<open>
  The two notification loops over \<open>_entityListeners\<close>. The loop
  \<open>for (let listener of this._entityListeners)\<close> reads the array anew at every step, and
  the listener's method is code outside the Engine that may call back into it: the
  parameter \<open>callback\<close> gives, for each listener, what its method does to the store.
  Each call is recorded as an event when it is made, before the callback runs. The result
  is \<open>None\<close> when the loop does not end; a callback that throws is not modelled.
\<close>

partial_function (option) notify_loop ::
  "(lid \<Rightarrow> entity \<Rightarrow> event) \<Rightarrow> (lid \<Rightarrow> entity \<Rightarrow> world \<Rightarrow> world) \<Rightarrow> eid \<Rightarrow> entity \<Rightarrow> nat \<Rightarrow> world
     \<Rightarrow> world option" where
  "notify_loop call callback e x i w =
     (if i < length (e_entityListeners (engine_of w e))
      then notify_loop call callback e x (Suc i)
             (callback (e_entityListeners (engine_of w e) ! i) x
                (w\<lparr>events := events w @ [call (e_entityListeners (engine_of w e) ! i) x]\<rparr>))
      else Some w)"

definition notify_added ::
  "(lid \<Rightarrow> entity \<Rightarrow> world \<Rightarrow> world) \<Rightarrow> eid \<Rightarrow> entity \<Rightarrow> world \<Rightarrow> world option" where
  "notify_added onEntityAdded e x w = notify_loop EntityAdded onEntityAdded e x 0 w"

definition notify_removed ::
  "(lid \<Rightarrow> entity \<Rightarrow> world \<Rightarrow> world) \<Rightarrow> eid \<Rightarrow> entity \<Rightarrow> world \<Rightarrow> world option" where
  "notify_removed onEntityRemoved e x w = notify_loop EntityRemoved onEntityRemoved e x 0 w"

definition addEntity ::
  "(lid \<Rightarrow> entity \<Rightarrow> world \<Rightarrow> world) \<Rightarrow> eid \<Rightarrow> entity \<Rightarrow> world \<Rightarrow> (error + world) option" where
  "addEntity onEntityAdded e x w =
     (let a = e_entities (engine_of w e)
      in if indexOf (arrays w a) x = - 1
         then (case array_push a x w of
                 Inl err \<Rightarrow> Some (Inl err)
               | Inr w1 \<Rightarrow> map_option Inr (notify_added onEntityAdded e x w1))
         else Some (Inr w))"

definition removeEntity ::
  "(lid \<Rightarrow> entity \<Rightarrow> world \<Rightarrow> world) \<Rightarrow> eid \<Rightarrow> entity \<Rightarrow> world \<Rightarrow> (error + world) option" where
  "removeEntity onEntityRemoved e x w =
     (let a = e_entities (engine_of w e);
          index = indexOf (arrays w a) x
      in if index \<noteq> - 1
         then (case array_splice1 a index w of
                 Inl err \<Rightarrow> Some (Inl err)
               | Inr w1 \<Rightarrow> map_option Inr (notify_removed onEntityRemoved e x w1))
         else Some (Inr w))"

definition addBlueprint :: "eid \<Rightarrow> blueprint \<Rightarrow> world \<Rightarrow> world" where
  "addBlueprint e b w =
     (if indexOf (map bp_ref (e_blueprints (engine_of w e))) (bp_ref b) = - 1
      then upd_engine e (\<lambda>r. r\<lparr>e_blueprints := e_blueprints r @ [b]\<rparr>) w
      else w)"

definition addSystem :: "eid \<Rightarrow> sid \<Rightarrow> world \<Rightarrow> world" where
  "addSystem e s w =
     (let index = indexOf (e_systems (engine_of w e)) s
      in if index = - 1
         then notifyPriorityChange e s
                (onAttach s e (upd_engine e (\<lambda>r. r\<lparr>e_systems := e_systems r @ [s]\<rparr>) w))
         else w)"

definition removeSystem :: "eid \<Rightarrow> sid \<Rightarrow> world \<Rightarrow> world" where
  "removeSystem e s w =
     (let index = indexOf (e_systems (engine_of w e)) s
      in if index \<noteq> - 1
         then onDetach s e (upd_engine e (\<lambda>r. r\<lparr>e_systems := splice1 (e_systems r) index\<rparr>) w)
         else w)"

text \<open>The batch forms call the single operation for each argument, in order; an
  exception ends the loop.\<close>

fun addEntities ::
  "(lid \<Rightarrow> entity \<Rightarrow> world \<Rightarrow> world) \<Rightarrow> eid \<Rightarrow> entity list \<Rightarrow> world \<Rightarrow> (error + world) option" where
  "addEntities onEntityAdded e [] w = Some (Inr w)"
| "addEntities onEntityAdded e (x # xs) w =
     (case addEntity onEntityAdded e x w of
        None \<Rightarrow> None
      | Some (Inl err) \<Rightarrow> Some (Inl err)
      | Some (Inr w1) \<Rightarrow> addEntities onEntityAdded e xs w1)"

fun removeEntities ::
  "(lid \<Rightarrow> entity \<Rightarrow> world \<Rightarrow> world) \<Rightarrow> eid \<Rightarrow> entity list \<Rightarrow> world \<Rightarrow> (error + world) option" where
  "removeEntities onEntityRemoved e [] w = Some (Inr w)"
| "removeEntities onEntityRemoved e (x # xs) w =
     (case removeEntity onEntityRemoved e x w of
        None \<Rightarrow> None
      | Some (Inl err) \<Rightarrow> Some (Inl err)
      | Some (Inr w1) \<Rightarrow> removeEntities onEntityRemoved e xs w1)"

definition addSystems :: "eid \<Rightarrow> sid list \<Rightarrow> world \<Rightarrow> world" where
  "addSystems e ss w = fold (addSystem e) ss w"

definition removeSystems :: "eid \<Rightarrow> sid list \<Rightarrow> world \<Rightarrow> world" where
  "removeSystems e ss w = fold (removeSystem e) ss w"

definition addBlueprints :: "eid \<Rightarrow> blueprint list \<Rightarrow> world \<Rightarrow> world" where
  "addBlueprints e bs w = fold (addBlueprint e) bs w"

subsection \<open>The EntityFactory\<close>

text \<open>
  Modelled from the spec: the class EntityFactory (\<open>entity-factory.ts\<close>) and the class
  Entity (\<open>entity.ts\<close>) are imported by \<open>engine.ts\<close> but are not among the sources. The
  definitions of this subsection follow the spec's words. The constructor keeps the
  blueprints registered at the time of the call (``snapshots the current Blueprint
  registry''; ``Blueprints added after start are not reflected unless the factory is
  rebuilt''): \<open>start\<close> passes the array \<open>_blueprints\<close> itself, and by these words the
  factory does not see what is pushed to that array later.
\<close>

definition EntityFactory_new :: "blueprint list \<Rightarrow> componentClass list \<Rightarrow> entityFactory" where
  "EntityFactory_new bps comps = \<lparr>ef_blueprints = bps, ef_components = comps\<rparr>"

fun find_blueprint :: "blueprint list \<Rightarrow> jsval \<Rightarrow> blueprint option" where
  "find_blueprint [] k = None"
| "find_blueprint (b # bs) k = (if JStr (bp_name b) = k then Some b else find_blueprint bs k)"

definition parents :: "blueprint \<Rightarrow> jsval list" where
  "parents b = (case bp_blueprints b of None \<Rightarrow> [] | Some ps \<Rightarrow> map JStr ps)"

text \<open>
  Modelled from the spec: ``resolve parent blueprint names first, depth-first in the order
  listed, applying each parent's own component list before the child's''; an unregistered
  name fails with UnknownBlueprint naming it; a name ``already on the current
  resolution path'' fails with CyclicBlueprintInheritance. \<open>resolve bps path names\<close>
  flattens the blueprints \<open>names\<close>, in order, into one component list, \<open>path\<close> being the
  names under resolution.
\<close>

definition unvisited :: "blueprint list \<Rightarrow> jsval list \<Rightarrow> nat" where
  "unvisited bps path = card ((\<lambda>b. JStr (bp_name b)) ` set bps - set path)"

function resolve ::
  "blueprint list \<Rightarrow> jsval list \<Rightarrow> jsval list \<Rightarrow> error + blueprintComponent list" where
  "resolve bps path [] = Inr []"
| "resolve bps path (n # ns) =
     (if n \<in> set path then Inl CyclicBlueprintInheritance
      else case find_blueprint bps n of
             None \<Rightarrow> Inl (UnknownBlueprint n)
           | Some b \<Rightarrow>
               (case resolve bps (n # path) (parents b) of
                  Inl err \<Rightarrow> Inl err
                | Inr cs \<Rightarrow>
                    (case resolve bps path ns of
                       Inl err \<Rightarrow> Inl err
                     | Inr ds \<Rightarrow> Inr (cs @ bp_components b @ ds))))"
  by pat_completeness auto
termination
proof (relation "measures [\<lambda>(bps, path, ns). unvisited bps path, \<lambda>(bps, path, ns). length ns]")
  show "wf (measures [\<lambda>(bps, path, ns :: jsval list). unvisited bps path,
                      \<lambda>(bps, path, ns). length ns])"
    by simp
next
  fix bps path n ns b
  assume fresh: "n \<notin> set path" and found: "find_blueprint bps n = Some b"
  have "find_blueprint cs n = Some b \<Longrightarrow> n \<in> (\<lambda>b. JStr (bp_name b)) ` set cs"
    for cs :: "blueprint list"
    by (induction cs) (auto split: if_splits)
  from this [OF found] have "n \<in> (\<lambda>b. JStr (bp_name b)) ` set bps" .
  with fresh have "(\<lambda>b. JStr (bp_name b)) ` set bps - set (n # path)
      \<subset> (\<lambda>b. JStr (bp_name b)) ` set bps - set path"
    by auto
  then have "unvisited bps (n # path) < unvisited bps path"
    unfolding unvisited_def by (intro psubset_card_mono) simp_all
  then show "((bps, n # path, parents b), bps, path, n # ns)
      \<in> measures [\<lambda>(bps, path, ns). unvisited bps path, \<lambda>(bps, path, ns). length ns]"
    by simp
next
  fix bps :: "blueprint list" and path :: "jsval list" and n :: jsval and ns :: "jsval list"
  show "((bps, path, ns), bps, path, n # ns)
      \<in> measures [\<lambda>(bps, path, ns). unvisited bps path, \<lambda>(bps, path, ns). length ns]"
    by simp
qed

text \<open>
  Modelled from the spec: a component without \<open>values\<close> is the default instance of its
  class, with \<open>values\<close> those fields are assigned onto the default instance; putting a
  component replaces the instance of the same name.
\<close>

definition instantiate :: "blueprintComponent \<Rightarrow> fields" where
  "instantiate c =
     (case values_of c of
        None \<Rightarrow> cc_new (component c)
      | Some vs \<Rightarrow> cc_new (component c) ++ vs)"

definition putComponent :: "blueprintComponent \<Rightarrow> entity_value \<Rightarrow> entity_value" where
  "putComponent c ent = ent(cc_name (component c) \<mapsto> instantiate c)"

definition EntityFactory_buildEntity :: "entityFactory \<Rightarrow> jsval \<Rightarrow> error + entity_value" where
  "EntityFactory_buildEntity f name =
     (case resolve (ef_blueprints f) [] [name] of
        Inl err \<Rightarrow> Inl err
      | Inr cs \<Rightarrow> Inr (fold putComponent cs Map.empty))"

subsection \<open>Engine: start, buildEntity, update\<close>

definition start :: "eid \<Rightarrow> world \<Rightarrow> world" where
  "start e w =
     upd_engine e (\<lambda>r. r\<lparr>e_entityFactory :=
        Some (EntityFactory_new (e_blueprints r) (e_components r))\<rparr>) w"

text \<open>
  \<open>buildEntity\<close>: with an enumeration, the key is looked up in it; a falsy result throws,
  otherwise the result replaces the key. The enumeration is the map of the object's own
  properties; a key that names a property inherited from \<open>Object.prototype\<close> is outside
  the model. A factory that \<open>start\<close> has not yet created is \<open>undefined\<close>, and calling
  its method is a TypeError.
\<close>

definition buildEntity :: "eid \<Rightarrow> jsval \<Rightarrow> world \<Rightarrow> error + entity_value" where
  "buildEntity e type w =
     (case (case e_blueprintTypes (engine_of w e) of
              None \<Rightarrow> Inr type
            | Some types \<Rightarrow>
                (if \<not> truthy (types (propertyKey type))
                 then Inl (InvalidBlueprintType type)
                 else (case types (propertyKey type) of
                         None \<Rightarrow> Inl (InvalidBlueprintType type)
                       | Some v \<Rightarrow> Inr v))) of
        Inl err \<Rightarrow> Inl err
      | Inr type' \<Rightarrow>
          (case e_entityFactory (engine_of w e) of
             None \<Rightarrow> Inl TypeError
           | Some f \<Rightarrow> EntityFactory_buildEntity f type'))"

text \<open>
  \<open>update\<close>. The sort is \<open>Array.prototype.sort\<close> with the comparator
  \<open>a.priority - b.priority\<close>: ascending by priority, and stable (as ECMAScript
  requires since its 2019 edition). The loop
  \<open>for (let system of this._systems)\<close> reads the array anew at every step: it stops when
  its index reaches the current length. \<open>System.update\<close> is abstract; the parameter
  \<open>upd\<close> gives, for each System, what its \<open>update(engine, delta)\<close> does to the store.
  A tick returns the store and the Systems whose \<open>update\<close> it invoked, in order; it is
  \<open>None\<close> when the loop does not end. An \<open>update\<close> that throws is not modelled.
\<close>

definition sort_systems :: "eid \<Rightarrow> world \<Rightarrow> world" where
  "sort_systems e w =
     (if e_systemsNeedSorting (engine_of w e)
      then upd_engine e (\<lambda>r. r\<lparr>e_systemsNeedSorting := False,
             e_systems := sort_key (\<lambda>s. s_priority (system_of w s)) (e_systems r)\<rparr>) w
      else w)"

partial_function (option) update_loop ::
  "(sid \<Rightarrow> eid \<Rightarrow> 'd \<Rightarrow> world \<Rightarrow> world) \<Rightarrow> eid \<Rightarrow> 'd \<Rightarrow> nat \<Rightarrow> sid list \<Rightarrow> world
     \<Rightarrow> (world \<times> sid list) option" where
  "update_loop upd e delta i invoked w =
     (if i < length (e_systems (engine_of w e))
      then update_loop upd e delta (Suc i) (invoked @ [e_systems (engine_of w e) ! i])
             (upd (e_systems (engine_of w e) ! i) e delta w)
      else Some (w, invoked))"

definition update ::
  "(sid \<Rightarrow> eid \<Rightarrow> 'd \<Rightarrow> world \<Rightarrow> world) \<Rightarrow> eid \<Rightarrow> 'd \<Rightarrow> world \<Rightarrow> (world \<times> sid list) option" where
  "update upd e delta w = update_loop upd e delta 0 [] (sort_systems e w)"

text \<open>The name that \<open>buildEntity\<close> hands to the factory for a key: the key itself
  without an enumeration, the enumeration's value for it otherwise; \<open>None\<close> when the
  validation rejects the key.\<close>

definition delegated :: "world \<Rightarrow> eid \<Rightarrow> jsval \<Rightarrow> jsval option" where
  "delegated w e type =
     (case e_blueprintTypes (engine_of w e) of
        None \<Rightarrow> Some type
      | Some types \<Rightarrow>
          (if truthy (types (propertyKey type)) then types (propertyKey type) else None))"

subsection \<open>The initial store and abbreviations\<close>

text \<open>The store before any object is constructed.\<close>

definition world0 :: world where
  "world0 =
     \<lparr>engine_of = (\<lambda>_. \<lparr>e_entities = 0, e_entityListeners = [], e_systems = [],
          e_systemsNeedSorting = False, e_entityFactory = None, e_blueprintTypes = None,
          e_blueprints = [], e_components = []\<rparr>),
      system_of = (\<lambda>_. \<lparr>s_priority = 0, s_engines = []\<rparr>),
      arrays = (\<lambda>_. []), frozen = (\<lambda>_. False), next_addr = 0, events = []\<rparr>"

definition entities_of :: "world \<Rightarrow> eid \<Rightarrow> entity list" where
  "entities_of w e = arrays w (e_entities (engine_of w e))"

definition systems_of :: "world \<Rightarrow> eid \<Rightarrow> sid list" where
  "systems_of w e = e_systems (engine_of w e)"

definition priority_of :: "world \<Rightarrow> sid \<Rightarrow> int" where
  "priority_of w s = s_priority (system_of w s)"

definition listeners_of :: "world \<Rightarrow> eid \<Rightarrow> lid list" where
  "listeners_of w e = e_entityListeners (engine_of w e)"

text \<open>A listener whose methods do nothing.\<close>

definition inert :: "lid \<Rightarrow> entity \<Rightarrow> world \<Rightarrow> world" where
  "inert l x w = w"

text \<open>A small store built through the API: one Engine with two inert listeners and one
  Entity.\<close>

definition demo_world :: world where
  "demo_world =
     (case addEntity inert 0 7 (addEntityListener 0 4 (addEntityListener 0 3
             (Engine_new 0 [] None world0))) of
        Some (Inr w) \<Rightarrow> w
      | _ \<Rightarrow> world0)"

definition needs_sorting :: "world \<Rightarrow> eid \<Rightarrow> bool" where
  "needs_sorting w e = e_systemsNeedSorting (engine_of w e)"

definition engines_of :: "world \<Rightarrow> sid \<Rightarrow> eid list" where
  "engines_of w s = s_engines (system_of w s)"

text \<open>
  In a sequence of invocations, \<open>a\<close> is invoked strictly before \<open>b\<close>: both occur, and each
  occurrence of \<open>a\<close> precedes each occurrence of \<open>b\<close>.
\<close>

definition invoked_before :: "sid list \<Rightarrow> sid \<Rightarrow> sid \<Rightarrow> bool" where
  "invoked_before invoked a b =
     (a \<in> set invoked \<and> b \<in> set invoked \<and>
      (\<forall>i < length invoked. \<forall>j < length invoked. invoked ! i = a \<and> invoked ! j = b \<longrightarrow> i < j))"

subsection \<open>Concrete Systems and stores\<close>

text \<open>A System whose \<open>update\<close> does nothing.\<close>

definition idle :: "sid \<Rightarrow> eid \<Rightarrow> int \<Rightarrow> world \<Rightarrow> world" where
  "idle s e delta w = w"

text \<open>The \<open>update\<close> of System 11 calls \<open>engine.removeSystem\<close> and then
  \<open>engine.addSystem\<close> on System 12; the other Systems do nothing.\<close>

definition reattach :: "sid \<Rightarrow> eid \<Rightarrow> int \<Rightarrow> world \<Rightarrow> world" where
  "reattach s e delta w = (if s = 11 then addSystem e 12 (removeSystem e 12 w) else w)"

text \<open>The \<open>update\<close> of System 11 calls \<open>engine.addSystem\<close> on System 19; the others do
  nothing.\<close>

definition spawner :: "sid \<Rightarrow> eid \<Rightarrow> int \<Rightarrow> world \<Rightarrow> world" where
  "spawner s e delta w = (if s = 11 then addSystem e 19 w else w)"

text \<open>One Engine with Systems 11 and 12 of priorities 5 and 0.\<close>

definition two_systems :: world where
  "two_systems =
     set_priority 11 5
       (addSystem 0 12 (addSystem 0 11
          (System_new 12 (System_new 11 (Engine_new 0 [] None world0)))))"

text \<open>The same store after one tick of idle Systems.\<close>

definition two_systems_ticked :: world where
  "two_systems_ticked =
     (case update idle 0 0 two_systems of Some (w, invoked) \<Rightarrow> w | None \<Rightarrow> world0)"

text \<open>One Engine with Systems 11, 12 and 13 of priorities 0, 1 and 2.\<close>

definition three_systems :: world where
  "three_systems =
     set_priority 13 2 (set_priority 12 1
       (addSystem 0 13 (addSystem 0 12 (addSystem 0 11
          (System_new 13 (System_new 12 (System_new 11 (Engine_new 0 [] None world0))))))))"

text \<open>The object of the TypeScript enumeration \<open>enum BlueprintType { Renderable, Player }\<close>:
  the names map to 0 and 1, and the numbers map back to the names.\<close>

definition BlueprintType :: "string \<rightharpoonup> jsval" where
  "BlueprintType =
     [''0'' \<mapsto> JStr ''Renderable'', ''1'' \<mapsto> JStr ''Player'',
      ''Renderable'' \<mapsto> JNum 0, ''Player'' \<mapsto> JNum 1]"

text \<open>The components and blueprints of the application (\<open>app.ts\<close>).\<close>

definition RenderComponent :: componentClass where
  "RenderComponent = \<lparr>cc_name = ''RenderComponent'', cc_tag = None, cc_new = Map.empty\<rparr>"

definition PositionComponent :: componentClass where
  "PositionComponent =
     \<lparr>cc_name = ''PositionComponent'', cc_tag = None,
      cc_new = [''x'' \<mapsto> JNum 0, ''y'' \<mapsto> JNum 0]\<rparr>"

definition Renderable :: blueprint where
  "Renderable =
     \<lparr>bp_ref = 0, bp_name = ''Renderable'',
      bp_components = [\<lparr>component = PositionComponent, values_of = Some Map.empty\<rparr>,
                       \<lparr>component = RenderComponent, values_of = None\<rparr>],
      bp_blueprints = Some []\<rparr>"

definition Player :: blueprint where
  "Player =
     \<lparr>bp_ref = 1, bp_name = ''Player'',
      bp_components = [\<lparr>component = RenderComponent,
                         values_of = Some [''value'' \<mapsto> JStr ''@'']\<rparr>],
      bp_blueprints = Some [''Renderable'']\<rparr>"

text \<open>The Engine of the application: constructed with the enumeration, the two blueprints
  added, then started.\<close>

definition app_world :: world where
  "app_world =
     start 0 (addBlueprint 0 Player (addBlueprint 0 Renderable
       (Engine_new 0 [PositionComponent, RenderComponent] (Some BlueprintType) world0)))"




text \<open>Parent blueprint A with component X \<open>{v: 1}\<close>, child blueprint B (parent A) with
  component X \<open>{v: 2}\<close>; the default instance of X has \<open>v = 0\<close>.\<close>

definition X_class :: componentClass where
  "X_class = \<lparr>cc_name = ''X'', cc_tag = None, cc_new = [''v'' \<mapsto> JNum 0]\<rparr>"

definition merge_A :: blueprint where
  "merge_A =
     \<lparr>bp_ref = 0, bp_name = ''A'',
      bp_components = [\<lparr>component = X_class, values_of = Some [''v'' \<mapsto> JNum 1]\<rparr>],
      bp_blueprints = None\<rparr>"

definition merge_B :: blueprint where
  "merge_B =
     \<lparr>bp_ref = 1, bp_name = ''B'',
      bp_components = [\<lparr>component = X_class, values_of = Some [''v'' \<mapsto> JNum 2]\<rparr>],
      bp_blueprints = Some [''A'']\<rparr>"

definition merge_world :: world where
  "merge_world =
     start 0 (addBlueprint 0 merge_B (addBlueprint 0 merge_A (Engine_new 0 [X_class] None world0)))"

text \<open>Blueprint A registered, the Engine started, and blueprint B added only then.\<close>

definition late_world :: world where
  "late_world =
     addBlueprints 0 [merge_B] (start 0 (addBlueprint 0 merge_A (Engine_new 0 [X_class] None world0)))"

subsection \<open>Runs of the notification loop\<close>

text \<open>The listeners that a sequence of notifications told that the Entity \<open>x\<close> was added,
  in the order of the calls.\<close>

fun added_of :: "entity \<Rightarrow> event \<Rightarrow> lid list" where
  "added_of x (EntityAdded l y) = (if y = x then [l] else [])"
| "added_of x (EntityRemoved l y) = []"

definition added_listeners :: "entity \<Rightarrow> event list \<Rightarrow> lid list" where
  "added_listeners x evs = concat (map (added_of x) evs)"

text \<open>
  What one call of a listener leaves alone, \<open>w\<close> being the store when the listener is
  called and \<open>w'\<close> the store when it returns: the listeners registered are still there in
  the same order (new ones may follow them), the Entity \<open>x\<close> occurs in the Engine's
  entity list as often as before, and the call caused no further notification that \<open>x\<close>
  was added.
\<close>

definition listener_keeps :: "eid \<Rightarrow> entity \<Rightarrow> world \<Rightarrow> world \<Rightarrow> bool" where
  "listener_keeps e x w w' =
     (prefix (listeners_of w e) (listeners_of w' e)
      \<and> count_list (entities_of w' e) x = count_list (entities_of w e) x
      \<and> added_listeners x (events w') = added_listeners x (events w))"

text \<open>
  \<open>notify_keeps onEntityAdded e x n i w\<close>: the notification loop of \<open>addEntity\<close>, run
  from index \<open>i\<close> in store \<open>w\<close>, ends after at most \<open>n\<close> calls, and each call it makes
  satisfies \<open>listener_keeps\<close>. The predicate follows the run of the loop: it looks at the
  calls that happen, in the stores in which they happen.
\<close>

fun notify_keeps ::
  "(lid \<Rightarrow> entity \<Rightarrow> world \<Rightarrow> world) \<Rightarrow> eid \<Rightarrow> entity \<Rightarrow> nat \<Rightarrow> nat \<Rightarrow> world \<Rightarrow> bool" where
  "notify_keeps onEntityAdded e x 0 i w = (length (listeners_of w e) \<le> i)"
| "notify_keeps onEntityAdded e x (Suc n) i w =
     (if i < length (listeners_of w e)
      then listener_keeps e x
             (w\<lparr>events := events w @ [EntityAdded (listeners_of w e ! i) x]\<rparr>)
             (onEntityAdded (listeners_of w e ! i) x
                (w\<lparr>events := events w @ [EntityAdded (listeners_of w e ! i) x]\<rparr>))
           \<and> notify_keeps onEntityAdded e x n (Suc i)
               (onEntityAdded (listeners_of w e ! i) x
                  (w\<lparr>events := events w @ [EntityAdded (listeners_of w e ! i) x]\<rparr>))
      else True)"

text \<open>The same for a call of \<open>addEntity\<close>: the push succeeds, and the notification loop
  that follows it is such a run.\<close>

definition addEntity_keeps ::
  "(lid \<Rightarrow> entity \<Rightarrow> world \<Rightarrow> world) \<Rightarrow> eid \<Rightarrow> entity \<Rightarrow> nat \<Rightarrow> world \<Rightarrow> bool" where
  "addEntity_keeps onEntityAdded e x n w =
     (case array_push (e_entities (engine_of w e)) x w of
        Inl err \<Rightarrow> False
      | Inr w1 \<Rightarrow> notify_keeps onEntityAdded e x n 0 w1)"

text \<open>Two calls of \<open>addEntity\<close> with the same Entity, one after the other.\<close>

definition addEntity_twice ::
  "(lid \<Rightarrow> entity \<Rightarrow> world \<Rightarrow> world) \<Rightarrow> eid \<Rightarrow> entity \<Rightarrow> world \<Rightarrow> (error + world) option" where
  "addEntity_twice onEntityAdded e x w =
     (case addEntity onEntityAdded e x w of
        Some (Inr w1) \<Rightarrow> addEntity onEntityAdded e x w1
      | r \<Rightarrow> r)"

text \<open>What is observed of a result: the Engine's entity list, its listeners, and the
  listeners told that \<open>x\<close> was added.\<close>

definition observed ::
  "eid \<Rightarrow> entity \<Rightarrow> (error + world) option \<Rightarrow> (entity list \<times> lid list \<times> lid list) option" where
  "observed e x r =
     (case r of
        Some (Inr w) \<Rightarrow> Some (entities_of w e, listeners_of w e, added_listeners x (events w))
      | _ \<Rightarrow> None)"

text \<open>Listeners of Engine 0, given by what their \<open>onEntityAdded\<close> does. The first
  deregisters itself (\<open>engine.removeEntityListener(this)\<close>). The second removes the
  Entity it is told about (\<open>engine.removeEntity(entity)\<close>); its \<open>onEntityRemoved\<close> does
  nothing. The third removes the Entity and adds it again, and does not react to the
  notifications of these two calls. With the fourth, listener 3 registers listener 5. The
  fifth registers a further listener, the one numbered next, each time.\<close>

definition unsubscribing :: "lid \<Rightarrow> entity \<Rightarrow> world \<Rightarrow> world" where
  "unsubscribing l x w = removeEntityListener 0 l w"

definition rejecting :: "lid \<Rightarrow> entity \<Rightarrow> world \<Rightarrow> world" where
  "rejecting l x w = (case removeEntity inert 0 x w of Some (Inr w1) \<Rightarrow> w1 | _ \<Rightarrow> w)"

definition readding :: "lid \<Rightarrow> entity \<Rightarrow> world \<Rightarrow> world" where
  "readding l x w =
     (case removeEntity inert 0 x w of
        Some (Inr w1) \<Rightarrow> (case addEntity inert 0 x w1 of Some (Inr w2) \<Rightarrow> w2 | _ \<Rightarrow> w1)
      | _ \<Rightarrow> w)"

definition registering :: "lid \<Rightarrow> entity \<Rightarrow> world \<Rightarrow> world" where
  "registering l x w = (if l = 3 then addEntityListener 0 5 w else w)"

definition chaining :: "lid \<Rightarrow> entity \<Rightarrow> world \<Rightarrow> world" where
  "chaining l x w = addEntityListener 0 (Suc l) w"

subsection \<open>Runs of the tick loop\<close>

text \<open>The list \<open>new\<close> is the list \<open>old\<close> followed by Systems that \<open>old\<close> does not hold,
  each once: what calls of \<open>addSystem\<close> do to a System list.\<close>

definition appends_new :: "sid list \<Rightarrow> sid list \<Rightarrow> bool" where
  "appends_new old new =
     (prefix old new \<and> distinct (drop (length old) new)
      \<and> set (drop (length old) new) \<inter> set old = {})"

text \<open>
  \<open>appending_run upd e delta n i w\<close>: the loop of \<open>update\<close>, run from index \<open>i\<close> in
  store \<open>w\<close>, ends after at most \<open>n\<close> invocations, and each \<open>update\<close> of a System that
  it invokes leaves the Engine's System list as it was or appends Systems to it. The
  predicate follows the run of the loop.
\<close>

fun appending_run ::
  "(sid \<Rightarrow> eid \<Rightarrow> 'd \<Rightarrow> world \<Rightarrow> world) \<Rightarrow> eid \<Rightarrow> 'd \<Rightarrow> nat \<Rightarrow> nat \<Rightarrow> world \<Rightarrow> bool" where
  "appending_run upd e delta 0 i w = (length (systems_of w e) \<le> i)"
| "appending_run upd e delta (Suc n) i w =
     (if i < length (systems_of w e)
      then appends_new (systems_of w e) (systems_of (upd (systems_of w e ! i) e delta w) e)
           \<and> appending_run upd e delta n (Suc i) (upd (systems_of w e ! i) e delta w)
      else True)"



text \<open>The \<open>update\<close> of System 11 calls \<open>engine.removeSystem\<close> on System 11 itself;
  the others do nothing.\<close>

definition leaving :: "sid \<Rightarrow> eid \<Rightarrow> int \<Rightarrow> world \<Rightarrow> world" where
  "leaving s e delta w = (if s = 11 then removeSystem e 11 w else w)"

text \<open>The \<open>update\<close> of every System calls \<open>engine.addSystem\<close> on the System numbered
  next.\<close>

definition chain_spawner :: "sid \<Rightarrow> eid \<Rightarrow> int \<Rightarrow> world \<Rightarrow> world" where
  "chain_spawner s e delta w = addSystem e (Suc s) w"

text \<open>What is observed of a tick that returns: the Systems invoked, in order, and the
  Engine's System list at the end.\<close>

definition tick_outcome :: "eid \<Rightarrow> (world \<times> sid list) option \<Rightarrow> (sid list \<times> sid list) option" where
  "tick_outcome e r =
     (case r of None \<Rightarrow> None | Some (w, invoked) \<Rightarrow> Some (invoked, systems_of w e))"

subsection \<open>Parent references\<close>





subsection \<open>Invariants of the store\<close>

text \<open>
  What the Engine's own operations maintain for an Engine \<open>e\<close>: its System list is sorted
  by priority unless the sort-needed flag is set, holds no System twice, and every System
  in it has \<open>e\<close> among its attached Engines; its entity array is allocated, is not frozen
  and holds no Entity twice, and no listener is registered twice.
\<close>

definition engine_ok :: "world \<Rightarrow> eid \<Rightarrow> bool" where
  "engine_ok w e =
     ((\<not> needs_sorting w e \<longrightarrow> sorted (map (priority_of w) (systems_of w e)))
      \<and> distinct (systems_of w e)
      \<and> (\<forall>s \<in> set (systems_of w e). e \<in> set (engines_of w s)))"

definition entities_ok :: "world \<Rightarrow> eid \<Rightarrow> bool" where
  "entities_ok w e =
     (e_entities (engine_of w e) < next_addr w
      \<and> \<not> frozen w (e_entities (engine_of w e))
      \<and> distinct (entities_of w e)
      \<and> distinct (e_entityListeners (engine_of w e)))"

section \<open>Basic facts\<close>

lemma indexOf_from_range:
  "indexOf_from xs x i = - 1 \<or> (i \<le> indexOf_from xs x i \<and> indexOf_from xs x i < i + int (length xs))"
  by (induction xs arbitrary: i) (auto, force+)

lemma indexOf_from_absent: "0 \<le> i \<Longrightarrow> (indexOf_from xs x i = - 1) = (x \<notin> set xs)"
proof (induction xs arbitrary: i)
  case Nil
  show ?case by simp
next
  case (Cons y ys)
  have "0 \<le> i + 1" using Cons.prems by simp
  from Cons.IH [OF this] Cons.prems show ?case by simp
qed

lemma indexOf_absent: "(indexOf xs x = - 1) = (x \<notin> set xs)"
  by (simp add: indexOf_def indexOf_from_absent)

lemma notify_loop_step:
  "i < length (listeners_of w e) \<Longrightarrow>
   notify_loop call callback e x i w =
     notify_loop call callback e x (Suc i)
       (callback (listeners_of w e ! i) x (w\<lparr>events := events w @ [call (listeners_of w e ! i) x]\<rparr>))"
  by (subst notify_loop.simps) (simp add: listeners_of_def)

lemma notify_loop_stop:
  "length (listeners_of w e) \<le> i \<Longrightarrow> notify_loop call callback e x i w = Some w"
  by (subst notify_loop.simps) (simp add: listeners_of_def)

lemma notify_loop_inert:
  "notify_loop call inert e x i w =
     Some (w\<lparr>events := events w @ map (\<lambda>l. call l x) (drop i (listeners_of w e))\<rparr>)"
proof (induction "length (listeners_of w e) - i" arbitrary: i w)
  case 0
  then show ?case by (simp add: notify_loop_stop)
next
  case (Suc n)
  then have lt: "i < length (listeners_of w e)" by simp
  let ?w = "w\<lparr>events := events w @ [call (listeners_of w e ! i) x]\<rparr>"
  have ls: "listeners_of ?w e = listeners_of w e"
    by (simp add: listeners_of_def)
  have "n = length (listeners_of ?w e) - Suc i"
    using Suc.hyps(2) by (simp add: ls)
  from Suc.hyps(1) [OF this] lt show ?case
    by (simp add: notify_loop_step inert_def ls Cons_nth_drop_Suc [symmetric])
qed

lemma notify_inert:
  "notify_added inert e x w =
     Some (w\<lparr>events := events w @ map (\<lambda>l. EntityAdded l x) (listeners_of w e)\<rparr>)"
  "notify_removed inert e x w =
     Some (w\<lparr>events := events w @ map (\<lambda>l. EntityRemoved l x) (listeners_of w e)\<rparr>)"
  by (simp_all add: notify_added_def notify_removed_def notify_loop_inert)

lemma addEntity_absent:
  assumes "\<not> frozen w (e_entities (engine_of w e))"
    and "x \<notin> set (arrays w (e_entities (engine_of w e)))"
  shows "addEntity inert e x w =
     Some (Inr (w\<lparr>arrays := (arrays w)(e_entities (engine_of w e) :=
                arrays w (e_entities (engine_of w e)) @ [x]),
            events := events w @ map (\<lambda>l. EntityAdded l x) (e_entityListeners (engine_of w e))\<rparr>))"
  using assms
  by (simp add: addEntity_def Let_def indexOf_absent array_push_def notify_inert listeners_of_def)

lemma addEntity_present:
  "x \<in> set (arrays w (e_entities (engine_of w e))) \<Longrightarrow> addEntity onEntityAdded e x w = Some (Inr w)"
  by (simp add: addEntity_def Let_def indexOf_absent)

lemma count_list_distinct: "distinct xs \<Longrightarrow> x \<in> set xs \<Longrightarrow> count_list xs x = 1"
  by (induction xs) auto

lemma demo_world_fields:
  "e_entities (engine_of demo_world 0) = 0"
  "e_entityListeners (engine_of demo_world 0) = [3, 4]"
  "arrays demo_world 0 = [7]"
  "\<not> frozen demo_world 0"
  "next_addr demo_world = 1"
  "events demo_world = [EntityAdded 3 7, EntityAdded 4 7]"
  by (simp_all add: demo_world_def world0_def Engine_new_def addEntityListener_def upd_engine_def
      indexOf_def addEntity_def array_push_def notify_inert listeners_of_def Let_def)

lemma arrays_upd_engine [simp]: "arrays (upd_engine e f w) = arrays w"
  by (simp add: upd_engine_def)

lemma arrays_upd_system [simp]: "arrays (upd_system s f w) = arrays w"
  by (simp add: upd_system_def)

lemma arrays_notifyPriorityChange [simp]: "arrays (notifyPriorityChange e s w) = arrays w"
  by (simp add: notifyPriorityChange_def)

lemma arrays_fold_notify [simp]:
  "arrays (fold (\<lambda>e. notifyPriorityChange e s) es w) = arrays w"
  by (induction es arbitrary: w) simp_all

lemma arrays_system_ops [simp]:
  "arrays (onAttach s e w) = arrays w"
  "arrays (onDetach s e w) = arrays w"
  "arrays (set_priority s v w) = arrays w"
  by (simp_all add: onAttach_def onDetach_def set_priority_def Let_def)

lemma arrays_engine_ops [simp]:
  "arrays (addSystem e s w) = arrays w"
  "arrays (removeSystem e s w) = arrays w"
  "arrays (addEntityListener e l w) = arrays w"
  "arrays (removeEntityListener e l w) = arrays w"
  "arrays (addBlueprint e b w) = arrays w"
  "arrays (start e w) = arrays w"
  "arrays (sort_systems e w) = arrays w"
  by (simp_all add: addSystem_def removeSystem_def addEntityListener_def
      removeEntityListener_def addBlueprint_def start_def sort_systems_def Let_def)

lemma frozen_slice_fields:
  "fst (frozen_slice a w) = next_addr w"
  "arrays (snd (frozen_slice a w)) = (arrays w)(next_addr w := arrays w a)"
  "frozen (snd (frozen_slice a w)) = (frozen w)(next_addr w := True)"
  "engine_of (snd (frozen_slice a w)) = engine_of w"
  "events (snd (frozen_slice a w)) = events w"
  by (simp_all add: frozen_slice_def Let_def)

lemma addEntity_arrays_other:
  "addEntity inert e x w = Some (Inr w') \<Longrightarrow> b \<noteq> e_entities (engine_of w e) \<Longrightarrow>
   arrays w' b = arrays w b"
  by (auto simp: addEntity_def Let_def array_push_def notify_inert split: if_splits)

lemma removeEntity_arrays_other:
  "removeEntity inert e x w = Some (Inr w') \<Longrightarrow> b \<noteq> e_entities (engine_of w e) \<Longrightarrow>
   arrays w' b = arrays w b"
  by (auto simp: removeEntity_def Let_def array_splice1_def notify_inert split: if_splits)

lemma added_listeners_simps [simp]:
  "added_listeners x [] = []"
  "added_listeners x (evs @ evs') = added_listeners x evs @ added_listeners x evs'"
  "added_listeners x (EntityAdded l x # evs) = l # added_listeners x evs"
  "y \<noteq> x \<Longrightarrow> added_listeners x (EntityAdded l y # evs) = added_listeners x evs"
  "added_listeners x (EntityRemoved l y # evs) = added_listeners x evs"
  by (simp_all add: added_listeners_def)

lemma observed_simps [simp]:
  "observed e x (Some (Inr w)) = Some (entities_of w e, listeners_of w e, added_listeners x (events w))"
  "observed e x (Some (Inl err)) = None"
  "observed e x None = None"
  by (simp_all add: observed_def)

lemma notify_keeps_loop:
  "notify_keeps cb e x n i w \<Longrightarrow>
   \<exists>w'. notify_loop EntityAdded cb e x i w = Some w'
      \<and> prefix (listeners_of w e) (listeners_of w' e)
      \<and> count_list (entities_of w' e) x = count_list (entities_of w e) x
      \<and> added_listeners x (events w') = added_listeners x (events w) @ drop i (listeners_of w' e)"
proof (induction n arbitrary: i w)
  case 0
  then show ?case by (simp add: notify_loop_stop)
next
  case (Suc n)
  show ?case
  proof (cases "i < length (listeners_of w e)")
    case False
    then show ?thesis by (simp add: notify_loop_stop)
  next
    case True
    define l where "l = listeners_of w e ! i"
    define w1 where "w1 = w\<lparr>events := events w @ [EntityAdded l x]\<rparr>"
    define w2 where "w2 = cb l x w1"
    have k: "listener_keeps e x w1 w2" and r: "notify_keeps cb e x n (Suc i) w2"
      using Suc.prems True by (simp_all add: w2_def w1_def l_def)
    have same: "listeners_of w1 e = listeners_of w e" "entities_of w1 e = entities_of w e"
      "added_listeners x (events w1) = added_listeners x (events w) @ [l]"
      by (simp_all add: w1_def listeners_of_def entities_of_def)
    from Suc.IH [OF r] obtain w' where loop: "notify_loop EntityAdded cb e x (Suc i) w2 = Some w'"
      and p: "prefix (listeners_of w2 e) (listeners_of w' e)"
      and c: "count_list (entities_of w' e) x = count_list (entities_of w2 e) x"
      and a: "added_listeners x (events w') = added_listeners x (events w2) @ drop (Suc i) (listeners_of w' e)"
      by blast
    have p02: "prefix (listeners_of w e) (listeners_of w2 e)"
      using k by (simp add: listener_keeps_def same)
    from p02 p have p0: "prefix (listeners_of w e) (listeners_of w' e)"
      by (rule prefix_order.trans)
    then obtain zs where zs: "listeners_of w' e = listeners_of w e @ zs"
      by (auto simp: prefix_def)
    have li: "listeners_of w' e ! i = l" and lt: "i < length (listeners_of w' e)"
      using True by (simp_all add: zs nth_append l_def)
    have "notify_loop EntityAdded cb e x i w = Some w'"
      using True loop by (simp add: notify_loop_step w2_def w1_def l_def)
    moreover have "count_list (entities_of w' e) x = count_list (entities_of w e) x"
      using c k by (simp add: listener_keeps_def same)
    moreover have "added_listeners x (events w') = added_listeners x (events w) @ drop i (listeners_of w' e)"
      using a k Cons_nth_drop_Suc [OF lt] by (simp add: listener_keeps_def same li)
    ultimately show ?thesis using p0 by blast
  qed
qed

lemma notify_loop_induct:
  assumes loop: "notify_loop call cb e x i w = Some w'"
    and stop: "\<And>i w. length (listeners_of w e) \<le> i \<Longrightarrow> P i w w"
    and step: "\<And>i w w'. i < length (listeners_of w e) \<Longrightarrow>
        P (Suc i) (cb (listeners_of w e ! i) x
                     (w\<lparr>events := events w @ [call (listeners_of w e ! i) x]\<rparr>)) w' \<Longrightarrow>
        P i w w'"
  shows "P i w w'"
proof -
  let ?P = "\<lambda>call' cb' e' x' i' v y.
              call' = call \<longrightarrow> cb' = cb \<longrightarrow> e' = e \<longrightarrow> x' = x \<longrightarrow> P i' v y"
  have main: "?P c k e' x' i' v y"
    if IH: "\<And>c k e' x' i' v y. nl c k e' x' i' v = Some y \<Longrightarrow> ?P c k e' x' i' v y"
      and eq: "(if i' < length (e_entityListeners (engine_of v e'))
           then nl c k e' x' (Suc i')
                  (k (e_entityListeners (engine_of v e') ! i') x'
                     (v\<lparr>events := events v @ [c (e_entityListeners (engine_of v e') ! i') x']\<rparr>))
           else Some v) = Some y"
    for nl c k e' x' i' v y
  proof (cases "i' < length (e_entityListeners (engine_of v e'))")
    case False
    with eq stop [of v i'] show ?thesis by (auto simp: listeners_of_def)
  next
    case True
    with eq have "nl c k e' x' (Suc i')
                  (k (e_entityListeners (engine_of v e') ! i') x'
                     (v\<lparr>events := events v @ [c (e_entityListeners (engine_of v e') ! i') x']\<rparr>))
        = Some y"
      by simp
    from IH [OF this] step [of i' v y] True show ?thesis by (auto simp: listeners_of_def)
  qed
  have "?P call cb e x i w w'"
  proof (rule notify_loop.raw_induct [where P = ?P and xa = "(((((call, cb), e), x), i), w)"
        and y = w', unfolded prod.case])
    fix nl c k e' x' i' v y
    assume "\<And>c k e' x' i' v y. nl c k e' x' i' v = Some y \<Longrightarrow> ?P c k e' x' i' v y"
      and "(if i' < length (e_entityListeners (engine_of v e'))
           then nl c k e' x' (Suc i')
                  (k (e_entityListeners (engine_of v e') ! i') x'
                     (v\<lparr>events := events v @ [c (e_entityListeners (engine_of v e') ! i') x']\<rparr>))
           else Some v) = Some y"
    then show "?P c k e' x' i' v y" by (rule main)
  qed (rule loop)
  then show ?thesis by simp
qed

lemma notify_loop_invariant:
  assumes loop: "notify_loop call cb e x i w = Some w'"
    and inv: "I w"
    and step: "\<And>l v. I v \<Longrightarrow> I (cb l x (v\<lparr>events := events v @ [call l x]\<rparr>))"
  shows "I w'"
proof -
  have "I w \<longrightarrow> I w'"
    by (rule notify_loop_induct [where P = "\<lambda>i v y. I v \<longrightarrow> I y", OF loop]) (simp_all add: step)
  with inv show ?thesis by simp
qed

lemma notify_loop_frozen:
  assumes law: "\<And>l y v. frozen v a \<Longrightarrow> frozen (cb l y v) a \<and> arrays (cb l y v) a = arrays v a"
    and loop: "notify_loop call cb e x i w = Some w'"
    and fr: "frozen w a"
  shows "frozen w' a \<and> arrays w' a = arrays w a"
  using loop
proof (rule notify_loop_invariant [where I = "\<lambda>v. frozen v a \<and> arrays v a = arrays w a"])
  show "frozen w a \<and> arrays w a = arrays w a" using fr by simp
next
  fix l and v :: world
  assume "frozen v a \<and> arrays v a = arrays w a"
  then show "frozen (cb l x (v\<lparr>events := events v @ [call l x]\<rparr>)) a
      \<and> arrays (cb l x (v\<lparr>events := events v @ [call l x]\<rparr>)) a = arrays w a"
    using law [of "v\<lparr>events := events v @ [call l x]\<rparr>" l x] by simp
qed


lemma listeners_of_addEntityListener:
  "listeners_of (addEntityListener e l w) e =
     (if l \<in> set (listeners_of w e) then listeners_of w e else listeners_of w e @ [l])"
  by (simp add: listeners_of_def addEntityListener_def indexOf_absent upd_engine_def)

lemma chain_step:
  assumes "ls = map (\<lambda>j. j + b) [0..<length ls]" and "i < length (ls :: nat list)"
  shows "(if Suc (ls ! i) \<in> set ls then ls else ls @ [Suc (ls ! i)])
           = map (\<lambda>j. j + b) [0..<length (if Suc (ls ! i) \<in> set ls then ls else ls @ [Suc (ls ! i)])]
         \<and> Suc i < length (if Suc (ls ! i) \<in> set ls then ls else ls @ [Suc (ls ! i)])"
proof -
  define n where "n = length ls"
  have ls: "ls = map (\<lambda>j. j + b) [0..<n]" using assms(1) by (simp add: n_def)
  have i: "ls ! i = i + b" using assms(2) by (subst ls) (simp add: n_def)
  have mem: "(Suc (i + b) \<in> set ls) = (Suc i < n)"
    by (subst ls) auto
  show ?thesis
  proof (cases "Suc i < n")
    case True
    with mem i assms show ?thesis by (simp add: n_def)
  next
    case False
    with assms(2) have n: "n = Suc i" by (simp add: n_def)
    have "ls @ [Suc (i + b)] = map (\<lambda>j. j + b) [0..<Suc n]"
      by (subst ls) (simp add: n)
    with False mem i show ?thesis by (simp add: n_def [symmetric])
  qed
qed

lemma notify_loop_chaining:
  assumes loop: "notify_loop call chaining 0 x i w = Some w'"
  shows "\<not> (listeners_of w 0 = map (\<lambda>j. j + 3) [0..<length (listeners_of w 0)]
            \<and> i < length (listeners_of w 0))"
proof (rule notify_loop_induct [where P = "\<lambda>i v y.
         \<not> (listeners_of v 0 = map (\<lambda>j. j + 3) [0..<length (listeners_of v 0)]
            \<and> i < length (listeners_of v 0))", OF loop])
  fix i w
  assume "length (listeners_of w 0) \<le> i"
  then show "\<not> (listeners_of w 0 = map (\<lambda>j. j + 3) [0..<length (listeners_of w 0)]
            \<and> i < length (listeners_of w 0))"
    by simp
next
  fix i and w w' :: world
  let ?w1 = "w\<lparr>events := events w @ [call (listeners_of w 0 ! i) x]\<rparr>"
  let ?w2 = "chaining (listeners_of w 0 ! i) x ?w1"
  assume lt: "i < length (listeners_of w 0)"
    and IH: "\<not> (listeners_of ?w2 0 = map (\<lambda>j. j + 3) [0..<length (listeners_of ?w2 0)]
            \<and> Suc i < length (listeners_of ?w2 0))"
  have l1: "listeners_of ?w1 0 = listeners_of w 0" by (simp add: listeners_of_def)
  have eq: "listeners_of ?w2 0 =
      (if Suc (listeners_of w 0 ! i) \<in> set (listeners_of w 0) then listeners_of w 0
       else listeners_of w 0 @ [Suc (listeners_of w 0 ! i)])"
    by (simp add: chaining_def listeners_of_addEntityListener l1)
  show "\<not> (listeners_of w 0 = map (\<lambda>j. j + 3) [0..<length (listeners_of w 0)]
            \<and> i < length (listeners_of w 0))"
  proof
    assume a: "listeners_of w 0 = map (\<lambda>j. j + 3) [0..<length (listeners_of w 0)]
            \<and> i < length (listeners_of w 0)"
    then have "listeners_of w 0 = map (\<lambda>j. j + 3) [0..<length (listeners_of w 0)]" by simp
    from chain_step [OF this lt]
    have "listeners_of ?w2 0 = map (\<lambda>j. j + 3) [0..<length (listeners_of ?w2 0)]
            \<and> Suc i < length (listeners_of ?w2 0)"
      unfolding eq .
    with IH show False by (rule notE)
  qed
qed

lemma addEntity_chaining_never_returns: "addEntity chaining 0 8 demo_world = None"
proof -
  let ?w0 = "demo_world\<lparr>arrays := (arrays demo_world)(0 := [7, 8])\<rparr>"
  have "notify_loop EntityAdded chaining 0 8 0 ?w0 = None"
  proof (cases "notify_loop EntityAdded chaining 0 8 0 ?w0")
    case (Some w')
    from notify_loop_chaining [OF this] show ?thesis
      by (simp add: listeners_of_def demo_world_fields)
  qed simp
  then show ?thesis
    by (simp add: addEntity_def Let_def array_push_def demo_world_fields indexOf_def
        notify_added_def)
qed

section \<open>Entities: adding, removing, the snapshot\<close>

text \<open>
  Claim C9. For an Entity that the Engine's entity list does not hold, \<open>removeEntity\<close>
  returns the store it was given, whatever the listeners would do when called: the
  entity list, the System list, the listeners, the blueprint registry and every other
  part of the store are unchanged, and no notification is recorded, since no listener is
  called.
\<close>

theorem removeEntity_absent_noop:
  "x \<notin> set (entities_of w e) \<Longrightarrow> removeEntity onEntityRemoved e x w = Some (Inr w)"
  by (simp add: removeEntity_def Let_def indexOf_absent entities_of_def)

theorem removeEntity_absent_noop_witness:
  "9 \<notin> set (entities_of demo_world 0)
   \<and> removeEntity unsubscribing 0 9 demo_world = Some (Inr demo_world)"
  using removeEntity_absent_noop [of 9 demo_world 0 unsubscribing]
  by (simp add: entities_of_def demo_world_fields)

text \<open>
  Claim C6, as amended. Let the Engine's entity list hold no Entity twice, and let
  \<open>addEntity\<close> be called with an Entity \<open>x\<close> that is either in the list already, or for
  which the call pushes it and runs a notification loop that ends and in which every
  listener called leaves the registered listeners in place and in order (it may register
  further ones), leaves \<open>x\<close> as often in the entity list as it found it, and causes no
  further notification that \<open>x\<close> was added. Then the call returns a store in which \<open>x\<close>
  has exactly one entry, and a second call with \<open>x\<close>, whatever its listeners would do,
  returns that store unchanged. If \<open>x\<close> was in the list, the first call changes nothing
  either. Otherwise the listeners told by the two calls that \<open>x\<close> was added are the
  listeners registered when the first call returns, in registration order, those
  registered during the loop included; so each of them is told exactly once, when none is
  registered twice.
\<close>

theorem addEntity_twice_once:
  assumes de: "distinct (entities_of w e)"
    and run: "x \<in> set (entities_of w e) \<or> addEntity_keeps onEntityAdded e x n w"
  shows "\<exists>w1. addEntity onEntityAdded e x w = Some (Inr w1)
      \<and> addEntity onEntityAdded2 e x w1 = Some (Inr w1)
      \<and> count_list (entities_of w1 e) x = 1
      \<and> prefix (listeners_of w e) (listeners_of w1 e)
      \<and> (x \<in> set (entities_of w e) \<longrightarrow> w1 = w)
      \<and> (x \<notin> set (entities_of w e) \<longrightarrow>
           added_listeners x (events w1) = added_listeners x (events w) @ listeners_of w1 e
         \<and> (distinct (listeners_of w1 e) \<longrightarrow>
              (\<forall>l \<in> set (listeners_of w1 e).
                 count_list (drop (length (added_listeners x (events w)))
                                  (added_listeners x (events w1))) l = 1)))"
proof (cases "x \<in> set (entities_of w e)")
  case True
  then have "addEntity cb e x w = Some (Inr w)" for cb
    by (simp add: addEntity_present entities_of_def)
  with True de show ?thesis
    by (simp add: count_list_distinct)
next
  case False
  let ?a = "e_entities (engine_of w e)"
  from False run have keeps: "addEntity_keeps onEntityAdded e x n w" by simp
  then have nf: "\<not> frozen w ?a"
    by (auto simp: addEntity_keeps_def array_push_def split: if_splits)
  define w0 where "w0 = w\<lparr>arrays := (arrays w)(?a := arrays w ?a @ [x])\<rparr>"
  have push: "array_push ?a x w = Inr w0"
    using nf by (simp add: array_push_def w0_def)
  have r: "notify_keeps onEntityAdded e x n 0 w0"
    using keeps by (simp add: addEntity_keeps_def push)
  have w0: "listeners_of w0 e = listeners_of w e" "events w0 = events w"
    "entities_of w0 e = entities_of w e @ [x]"
    by (simp_all add: w0_def listeners_of_def entities_of_def)
  from notify_keeps_loop [OF r] obtain w1
    where loop: "notify_loop EntityAdded onEntityAdded e x 0 w0 = Some w1"
      and p: "prefix (listeners_of w e) (listeners_of w1 e)"
      and c: "count_list (entities_of w1 e) x = count_list (entities_of w e @ [x]) x"
      and a: "added_listeners x (events w1) = added_listeners x (events w) @ listeners_of w1 e"
    by (auto simp: w0)
  have 1: "addEntity onEntityAdded e x w = Some (Inr w1)"
    using False push loop
    by (simp add: addEntity_def Let_def indexOf_absent entities_of_def notify_added_def)
  have 3: "count_list (entities_of w1 e) x = 1"
    using c False by simp
  then have "x \<in> set (entities_of w1 e)"
    by (metis count_list_0_iff zero_neq_one)
  then have 2: "addEntity onEntityAdded2 e x w1 = Some (Inr w1)"
    by (simp add: addEntity_present entities_of_def)
  have 4: "count_list (drop (length (added_listeners x (events w)))
                            (added_listeners x (events w1))) l = 1"
    if "distinct (listeners_of w1 e)" "l \<in> set (listeners_of w1 e)" for l
    using that by (simp add: a count_list_distinct)
  show ?thesis
    using 1 2 3 4 p a False by blast
qed

theorem addEntity_twice_once_witness:
  "distinct (entities_of demo_world 0)
   \<and> 8 \<notin> set (entities_of demo_world 0)
   \<and> addEntity_keeps registering 0 8 (Suc (Suc (Suc 0))) demo_world
   \<and> listeners_of demo_world 0 = [3, 4]
   \<and> added_listeners 8 (events demo_world) = []
   \<and> (\<exists>w1. addEntity registering 0 8 demo_world = Some (Inr w1)
        \<and> addEntity registering 0 8 w1 = Some (Inr w1)
        \<and> count_list (entities_of w1 0) 8 = 1
        \<and> added_listeners 8 (events w1) = listeners_of w1 0)
   \<and> observed 0 8 (addEntity_twice registering 0 8 demo_world)
       = Some ([7, 8], [3, 4, 5], [3, 4, 5])"
proof -
  have k: "addEntity_keeps registering 0 8 (Suc (Suc (Suc 0))) demo_world"
    by (simp add: addEntity_keeps_def array_push_def demo_world_fields listener_keeps_def
        listeners_of_def entities_of_def registering_def addEntityListener_def upd_engine_def
        indexOf_def)
  have o: "observed 0 8 (addEntity_twice registering 0 8 demo_world)
       = Some ([7, 8], [3, 4, 5], [3, 4, 5])"
    by (simp add: addEntity_twice_def addEntity_def Let_def array_push_def demo_world_fields
        notify_added_def notify_loop_step notify_loop_stop
        listeners_of_def entities_of_def registering_def addEntityListener_def upd_engine_def
        indexOf_def)
  show ?thesis
    using k o addEntity_twice_once [of demo_world 0 8 registering "Suc (Suc (Suc 0))" registering]
    by (simp add: entities_of_def listeners_of_def demo_world_fields) blast
qed

text \<open>
  Claim C6 as stated, for every listener, fails: the notification loop reads the live
  listener list and the listeners are called with the Engine in reach. On the store with
  listeners 3 and 4 and Entity 7: when each listener deregisters itself on being
  notified, \<open>addEntity\<close> of Entity 8 tells listener 3 only, and listener 4, still
  registered, is never told; when each listener removes the Entity it is told about, two
  calls of \<open>addEntity\<close> leave no entry for Entity 8 and tell each listener twice; when
  each listener removes the Entity and adds it again, Entity 8 has one entry and listener
  3 is told three times; when each listener registers a further listener, the loop never
  reaches the end of the list and \<open>addEntity\<close> does not return.
\<close>

theorem addEntity_listener_counterexample:
  "observed 0 8 (Some (Inr demo_world)) = Some ([7], [3, 4], [])
   \<and> observed 0 8 (addEntity unsubscribing 0 8 demo_world) = Some ([7, 8], [4], [3])
   \<and> observed 0 8 (addEntity_twice rejecting 0 8 demo_world) = Some ([7], [3, 4], [3, 4, 3, 4])
   \<and> observed 0 8 (addEntity_twice readding 0 8 demo_world)
       = Some ([7, 8], [3, 4], [3, 3, 4, 4, 3, 4])
   \<and> addEntity chaining 0 8 demo_world = None"
proof -
  have 0: "observed 0 8 (Some (Inr demo_world)) = Some ([7], [3, 4], [])"
    by (simp add: entities_of_def listeners_of_def demo_world_fields)
  have 1: "observed 0 8 (addEntity unsubscribing 0 8 demo_world) = Some ([7, 8], [4], [3])"
    by (simp add: addEntity_def Let_def array_push_def demo_world_fields
        notify_added_def notify_loop_step notify_loop_stop
        listeners_of_def entities_of_def unsubscribing_def removeEntityListener_def
        upd_engine_def indexOf_def splice1_def)
  have 2: "observed 0 8 (addEntity_twice rejecting 0 8 demo_world)
      = Some ([7], [3, 4], [3, 4, 3, 4])"
    by (simp add: addEntity_twice_def addEntity_def removeEntity_def Let_def array_push_def
        array_splice1_def demo_world_fields notify_added_def notify_inert
        notify_loop_step notify_loop_stop
        listeners_of_def entities_of_def rejecting_def indexOf_def splice1_def)
  have 3: "observed 0 8 (addEntity_twice readding 0 8 demo_world)
       = Some ([7, 8], [3, 4], [3, 3, 4, 4, 3, 4])"
    by (simp add: addEntity_twice_def addEntity_def removeEntity_def Let_def array_push_def
        array_splice1_def demo_world_fields notify_added_def notify_inert inert_def
        notify_loop_step notify_loop_stop
        listeners_of_def entities_of_def readding_def indexOf_def splice1_def)
  from 0 1 2 3 addEntity_chaining_never_returns show ?thesis by blast
qed


text \<open>
  Claim C8. The accessor \<open>entities\<close> returns a read-only point-in-time snapshot. In a
  store where the Engine's array is allocated and not frozen, the accessor returns the
  address \<open>snap\<close> of an array that holds the entities of that moment and is frozen
  (\<open>push\<close> and \<open>splice\<close> on it are rejected). A later \<open>addEntity\<close> of an Entity that was
  not present succeeds and extends the Engine's entity list, while the array at \<open>snap\<close>
  still holds the earlier entities, without the new one. The same holds for an
  \<open>addEntity\<close> or \<open>removeEntity\<close> on any Engine, with any listeners that, like every
  piece of JavaScript, cannot write to a frozen array or thaw it, and for the operations on
  Systems, listeners and blueprints, none of which writes to an entity array.
\<close>

theorem entities_snapshot:
  assumes alloc: "e_entities (engine_of w e) < next_addr w"
    and nf: "\<not> frozen w (e_entities (engine_of w e))"
    and new: "x \<notin> set (entities_of w e)"
    and snap: "get_entities e w = (snap, w1)"
  shows "arrays w1 snap = entities_of w e \<and> frozen w1 snap
    \<and> array_push snap y w1 = Inl TypeError \<and> array_splice1 snap i w1 = Inl TypeError
    \<and> (\<exists>w2. addEntity inert e x w1 = Some (Inr w2) \<and> entities_of w2 e = entities_of w e @ [x]
           \<and> arrays w2 snap = entities_of w e \<and> x \<notin> set (arrays w2 snap))
    \<and> (\<forall>listener e' z w2. e_entities (engine_of w e') < next_addr w \<longrightarrow>
           (\<forall>l u v. frozen v snap \<longrightarrow>
                frozen (listener l u v) snap \<and> arrays (listener l u v) snap = arrays v snap) \<longrightarrow>
           (addEntity listener e' z w1 = Some (Inr w2)
              \<or> removeEntity listener e' z w1 = Some (Inr w2)) \<longrightarrow>
           arrays w2 snap = entities_of w e)
    \<and> arrays (addSystem e' s w1) snap = entities_of w e
    \<and> arrays (removeSystem e' s w1) snap = entities_of w e
    \<and> arrays (set_priority s v w1) snap = entities_of w e
    \<and> arrays (addEntityListener e' l w1) snap = entities_of w e
    \<and> arrays (removeEntityListener e' l w1) snap = entities_of w e
    \<and> arrays (addBlueprint e' b w1) snap = entities_of w e
    \<and> arrays (start e' w1) snap = entities_of w e"
proof -
  let ?a = "e_entities (engine_of w e)"
  have s: "snap = next_addr w" and w1: "w1 = snd (frozen_slice ?a w)"
    using snap frozen_slice_fields(1) [of ?a w] by (simp_all add: get_entities_def)
  have ne: "?a \<noteq> snap" using alloc s by simp
  have c1: "arrays w1 snap = entities_of w e" "frozen w1 snap"
    by (simp_all add: s w1 frozen_slice_fields entities_of_def)
  have c2: "array_push snap y w1 = Inl TypeError" "array_splice1 snap i w1 = Inl TypeError"
    using c1(2) by (simp_all add: array_push_def array_splice1_def)
  have a1: "e_entities (engine_of w1 e') = e_entities (engine_of w e')" for e'
    by (simp add: w1 frozen_slice_fields)
  have nf1: "\<not> frozen w1 (e_entities (engine_of w1 e))"
    using nf ne by (simp add: w1 frozen_slice_fields s)
  have new1: "x \<notin> set (arrays w1 (e_entities (engine_of w1 e)))"
    using new ne by (simp add: w1 frozen_slice_fields s entities_of_def)
  have old1: "arrays w1 ?a = arrays w ?a"
    using ne by (simp add: w1 frozen_slice_fields s)
  have c3: "\<exists>w2. addEntity inert e x w1 = Some (Inr w2) \<and> entities_of w2 e = entities_of w e @ [x]
           \<and> arrays w2 snap = entities_of w e \<and> x \<notin> set (arrays w2 snap)"
    using addEntity_absent [OF nf1 new1] ne c1(1) new old1
    by (simp add: entities_of_def a1)
  have c4: "arrays w2 snap = entities_of w e"
    if al: "e_entities (engine_of w e') < next_addr w"
      and law: "\<forall>l u v. frozen v snap \<longrightarrow>
                frozen (listener l u v) snap \<and> arrays (listener l u v) snap = arrays v snap"
      and op: "addEntity listener e' z w1 = Some (Inr w2)
                 \<or> removeEntity listener e' z w1 = Some (Inr w2)"
    for listener e' z w2
  proof -
    let ?b = "e_entities (engine_of w1 e')"
    have nb: "snap \<noteq> ?b"
      using al s by (simp add: a1)
    have kept: "arrays w2 snap = arrays w1 snap"
      if "notify_loop call listener e' z 0 w0 = Some w2" "frozen w0 snap"
        "arrays w0 snap = arrays w1 snap" for call w0
      using notify_loop_frozen [of snap listener call e' z 0 w0 w2] law that by simp
    from op show ?thesis
    proof
      assume add: "addEntity listener e' z w1 = Some (Inr w2)"
      show ?thesis
      proof (cases "indexOf (arrays w1 ?b) z = - 1")
        case False
        with add have "w2 = w1" by (simp add: addEntity_def Let_def)
        with c1(1) show ?thesis by simp
      next
        case True
        with add obtain w0 where push: "array_push ?b z w1 = Inr w0"
          and loop: "notify_loop EntityAdded listener e' z 0 w0 = Some w2"
          by (auto simp: addEntity_def Let_def notify_added_def split: sum.splits)
        from push have "frozen w0 snap" "arrays w0 snap = arrays w1 snap"
          using nb c1(2) by (auto simp: array_push_def split: if_splits)
        from kept [OF loop this] c1(1) show ?thesis by simp
      qed
    next
      assume rem: "removeEntity listener e' z w1 = Some (Inr w2)"
      show ?thesis
      proof (cases "indexOf (arrays w1 ?b) z = - 1")
        case True
        with rem have "w2 = w1" by (simp add: removeEntity_def Let_def)
        with c1(1) show ?thesis by simp
      next
        case False
        with rem obtain w0 where splice: "array_splice1 ?b (indexOf (arrays w1 ?b) z) w1 = Inr w0"
          and loop: "notify_loop EntityRemoved listener e' z 0 w0 = Some w2"
          by (auto simp: removeEntity_def Let_def notify_removed_def split: sum.splits)
        from splice have "frozen w0 snap" "arrays w0 snap = arrays w1 snap"
          using nb c1(2) by (auto simp: array_splice1_def split: if_splits)
        from kept [OF loop this] c1(1) show ?thesis by simp
      qed
    qed
  qed
  have c5: "arrays (addSystem e' s w1) snap = entities_of w e"
    "arrays (removeSystem e' s w1) snap = entities_of w e"
    "arrays (set_priority s v w1) snap = entities_of w e"
    "arrays (addEntityListener e' l w1) snap = entities_of w e"
    "arrays (removeEntityListener e' l w1) snap = entities_of w e"
    "arrays (addBlueprint e' b w1) snap = entities_of w e"
    "arrays (start e' w1) snap = entities_of w e"
    using c1(1) by simp_all
  show ?thesis
    using c1 c2 c3 c4 c5 by blast
qed

theorem entities_snapshot_witness:
  "e_entities (engine_of demo_world 0) < next_addr demo_world
   \<and> \<not> frozen demo_world (e_entities (engine_of demo_world 0))
   \<and> 8 \<notin> set (entities_of demo_world 0)
   \<and> get_entities 0 demo_world = (1, snd (get_entities 0 demo_world))
   \<and> arrays (snd (get_entities 0 demo_world)) 1 = [7]
   \<and> (\<exists>w2. addEntity inert 0 8 (snd (get_entities 0 demo_world)) = Some (Inr w2)
          \<and> entities_of w2 0 = [7, 8] \<and> arrays w2 1 = [7])"
proof -
  have g: "get_entities 0 demo_world = (1, snd (get_entities 0 demo_world))"
    by (simp add: get_entities_def frozen_slice_def Let_def demo_world_fields)
  show ?thesis
    using g entities_snapshot [of demo_world 0 8 1 "snd (get_entities 0 demo_world)"]
    by (simp add: entities_of_def demo_world_fields) blast
qed

lemma indexOf_from_present:
  "x \<in> set xs \<Longrightarrow> indexOf_from xs x i = i + int (length (takeWhile (\<lambda>y. y \<noteq> x) xs))"
  by (induction xs arbitrary: i) auto

lemma take_drop_remove1:
  "x \<in> set xs \<Longrightarrow>
   take (length (takeWhile (\<lambda>y. y \<noteq> x) xs)) xs
     @ drop (Suc (length (takeWhile (\<lambda>y. y \<noteq> x) xs))) xs = remove1 x xs"
  by (induction xs) auto

lemma splice1_indexOf: "x \<in> set xs \<Longrightarrow> splice1 xs (indexOf xs x) = remove1 x xs"
  by (simp add: splice1_def indexOf_def indexOf_from_present take_drop_remove1)

lemma systems_of_upd_system [simp]: "systems_of (upd_system s f w) e = systems_of w e"
  by (simp add: systems_of_def upd_system_def)

lemma systems_of_onAttach [simp]: "systems_of (onAttach s e' w) e = systems_of w e"
  by (simp add: onAttach_def)

lemma systems_of_onDetach [simp]: "systems_of (onDetach s e' w) e = systems_of w e"
  by (simp add: onDetach_def Let_def)

lemma systems_of_notifyPriorityChange [simp]:
  "systems_of (notifyPriorityChange e' s w) e = systems_of w e"
  by (simp add: notifyPriorityChange_def systems_of_def upd_engine_def)

lemma systems_of_addSystem:
  "systems_of (addSystem e s w) e' =
     (if e' = e \<and> s \<notin> set (systems_of w e) then systems_of w e @ [s] else systems_of w e')"
proof (cases "s \<in> set (systems_of w e)")
  case True
  then show ?thesis
    by (simp add: addSystem_def Let_def indexOf_absent systems_of_def)
next
  case False
  then have "indexOf (e_systems (engine_of w e)) s = - 1"
    by (simp add: indexOf_absent systems_of_def)
  then have "addSystem e s w = notifyPriorityChange e s
      (onAttach s e (upd_engine e (\<lambda>r. r\<lparr>e_systems := e_systems r @ [s]\<rparr>) w))"
    by (simp add: addSystem_def Let_def)
  then show ?thesis
    using False by (simp add: systems_of_def [of "upd_engine _ _ _"] upd_engine_def)
      (simp add: systems_of_def)
qed

lemma systems_of_removeSystem:
  "systems_of (removeSystem e s w) e' =
     (if e' = e then remove1 s (systems_of w e) else systems_of w e')"
proof (cases "s \<in> set (systems_of w e)")
  case False
  then show ?thesis
    by (simp add: removeSystem_def Let_def indexOf_absent systems_of_def remove1_idem)
next
  case True
  then have "indexOf (e_systems (engine_of w e)) s \<noteq> - 1"
    by (simp add: indexOf_absent systems_of_def)
  then have "removeSystem e s w = onDetach s e (upd_engine e
      (\<lambda>r. r\<lparr>e_systems := splice1 (e_systems r) (indexOf (e_systems (engine_of w e)) s)\<rparr>) w)"
    by (simp add: removeSystem_def Let_def)
  then show ?thesis
    using True splice1_indexOf [of s "e_systems (engine_of w e)"]
    by (simp add: systems_of_def [of "upd_engine _ _ _"] upd_engine_def)
      (simp add: systems_of_def)
qed

lemma priority_of_upd_engine [simp]: "priority_of (upd_engine e f w) = priority_of w"
  by (simp add: priority_of_def [abs_def] upd_engine_def)

lemma system_of_upd_engine [simp]: "system_of (upd_engine e f w) = system_of w"
  by (simp add: upd_engine_def)

lemma priority_of_addSystem [simp]: "priority_of (addSystem e s w) = priority_of w"
  by (auto simp: addSystem_def Let_def notifyPriorityChange_def onAttach_def
      priority_of_def [abs_def] upd_system_def fun_eq_iff)

lemma priority_of_removeSystem [simp]: "priority_of (removeSystem e s w) = priority_of w"
  by (auto simp: removeSystem_def Let_def onDetach_def
      priority_of_def [abs_def] upd_system_def fun_eq_iff)

lemma update_loop_step:
  "i < length (systems_of w e) \<Longrightarrow>
   update_loop upd e d i tr w =
     update_loop upd e d (Suc i) (tr @ [systems_of w e ! i]) (upd (systems_of w e ! i) e d w)"
  by (subst update_loop.simps) (simp add: systems_of_def)

lemma update_loop_stop:
  "length (systems_of w e) \<le> i \<Longrightarrow> update_loop upd e d i tr w = Some (w, tr)"
  by (subst update_loop.simps) (simp add: systems_of_def)

lemma fold_notify_engine:
  "engine_of (fold (\<lambda>e. notifyPriorityChange e s) es w) e =
     (if e \<in> set es then (engine_of w e)\<lparr>e_systemsNeedSorting := True\<rparr> else engine_of w e)"
  by (induction es arbitrary: w) (auto simp: notifyPriorityChange_def upd_engine_def)

lemma fold_notify_system:
  "system_of (fold (\<lambda>e. notifyPriorityChange e s) es w) = system_of w"
  by (induction es arbitrary: w) (auto simp: notifyPriorityChange_def upd_engine_def)

lemma set_priority_engine:
  "engine_of (set_priority s v w) e =
     (if e \<in> set (s_engines (system_of w s))
      then (engine_of w e)\<lparr>e_systemsNeedSorting := True\<rparr> else engine_of w e)"
  by (simp add: set_priority_def Let_def fold_notify_engine upd_system_def)

lemma set_priority_system:
  "system_of (set_priority s v w) = (system_of w)(s := (system_of w s)\<lparr>s_priority := v\<rparr>)"
  by (simp add: set_priority_def Let_def fold_notify_system upd_system_def)

lemma systems_of_simps [simp]:
  "systems_of world0 e = []"
  "systems_of (System_new s w) e = systems_of w e"
  "systems_of (Engine_new e' c t w) e = (if e = e' then [] else systems_of w e)"
  "systems_of (set_priority s v w) e = systems_of w e"
  "systems_of (sort_systems e' w) e =
     (if e = e' \<and> needs_sorting w e' then sort_key (priority_of w) (systems_of w e')
      else systems_of w e)"
  by (simp_all add: systems_of_def world0_def System_new_def Engine_new_def set_priority_engine
      sort_systems_def needs_sorting_def upd_system_def upd_engine_def Let_def
      priority_of_def [abs_def])

lemma priority_of_simps [simp]:
  "priority_of world0 s = 0"
  "priority_of (System_new s' w) s = (if s = s' then 0 else priority_of w s)"
  "priority_of (Engine_new e c t w) s = priority_of w s"
  "priority_of (set_priority s' v w) s = (if s = s' then v else priority_of w s)"
  "priority_of (sort_systems e w) s = priority_of w s"
  by (simp_all add: priority_of_def world0_def System_new_def Engine_new_def set_priority_system
      sort_systems_def upd_system_def upd_engine_def Let_def)

lemma engines_of_simps [simp]:
  "engines_of world0 s = []"
  "engines_of (System_new s' w) s = (if s = s' then [] else engines_of w s)"
  "engines_of (Engine_new e c t w) s = engines_of w s"
  "engines_of (set_priority s' v w) s = engines_of w s"
  "engines_of (sort_systems e w) s = engines_of w s"
  by (simp_all add: engines_of_def world0_def System_new_def Engine_new_def set_priority_system
      sort_systems_def upd_system_def upd_engine_def Let_def)

lemma needs_sorting_simps [simp]:
  "needs_sorting world0 e = False"
  "needs_sorting (System_new s w) e = needs_sorting w e"
  "needs_sorting (Engine_new e' c t w) e = (if e = e' then False else needs_sorting w e)"
  "needs_sorting (set_priority s v w) e = (e \<in> set (engines_of w s) \<or> needs_sorting w e)"
  "needs_sorting (sort_systems e' w) e = (if e = e' then False else needs_sorting w e)"
  "needs_sorting (removeSystem e' s w) e = needs_sorting w e"
  "needs_sorting (addSystem e' s w) e =
     (if e = e' \<and> s \<notin> set (systems_of w e') then True else needs_sorting w e)"
  by (auto simp: needs_sorting_def engines_of_def world0_def System_new_def Engine_new_def
      set_priority_engine sort_systems_def upd_system_def upd_engine_def Let_def
      removeSystem_def addSystem_def onAttach_def onDetach_def notifyPriorityChange_def
      indexOf_absent systems_of_def)

lemma engines_of_addSystem:
  "engines_of (addSystem e s w) s' =
     (if s' = s \<and> s \<notin> set (systems_of w e) \<and> e \<notin> set (engines_of w s)
      then engines_of w s @ [e] else engines_of w s')"
  by (auto simp: engines_of_def addSystem_def Let_def onAttach_def notifyPriorityChange_def
      upd_system_def upd_engine_def indexOf_absent systems_of_def)

lemma engines_of_removeSystem:
  "engines_of (removeSystem e s w) s' =
     (if s' = s \<and> s \<in> set (systems_of w e) then remove1 e (engines_of w s)
      else engines_of w s')"
  by (auto simp: engines_of_def removeSystem_def Let_def onDetach_def
      upd_system_def upd_engine_def indexOf_absent systems_of_def splice1_indexOf remove1_idem)

lemma sorted_invoked_before:
  assumes "sorted (map f L)" and "a \<in> set L" and "b \<in> set L" and "f a < (f b :: int)"
  shows "invoked_before L a b"
proof -
  have "i < j" if "i < length L" "j < length L" "L ! i = a" "L ! j = b" for i j
  proof (rule ccontr)
    assume "\<not> i < j"
    then have "j \<le> i" by simp
    with assms(1) that(1) have "map f L ! j \<le> map f L ! i"
      by (simp add: sorted_iff_nth_mono)
    with that assms(4) \<open>j \<le> i\<close> show False by simp
  qed
  with assms(2,3) show ?thesis
    by (simp add: invoked_before_def)
qed


lemma appends_new_prefix: "appends_new old new \<Longrightarrow> prefix old new"
  by (simp add: appends_new_def)

lemma appends_new_distinct: "appends_new old new \<Longrightarrow> distinct old \<Longrightarrow> distinct new"
proof -
  assume a: "appends_new old new" and d: "distinct old"
  then have "new = old @ drop (length old) new"
    by (auto simp: appends_new_def prefix_def)
  moreover have "distinct (old @ drop (length old) new)"
    using a d by (auto simp: appends_new_def)
  ultimately show ?thesis by simp
qed

lemma appending_run_loop:
  "appending_run upd e d n i w \<Longrightarrow>
   \<exists>w'. update_loop upd e d i tr w = Some (w', tr @ drop i (systems_of w' e))
      \<and> prefix (systems_of w e) (systems_of w' e)
      \<and> (distinct (systems_of w e) \<longrightarrow> distinct (systems_of w' e))"
proof (induction n arbitrary: i tr w)
  case 0
  then show ?case by (simp add: update_loop_stop)
next
  case (Suc n)
  show ?case
  proof (cases "i < length (systems_of w e)")
    case False
    then show ?thesis by (simp add: update_loop_stop)
  next
    case True
    define s where "s = systems_of w e ! i"
    define w1 where "w1 = upd s e d w"
    have a: "appends_new (systems_of w e) (systems_of w1 e)"
      and r: "appending_run upd e d n (Suc i) w1"
      using Suc.prems True by (simp_all add: w1_def s_def)
    from Suc.IH [OF r, of "tr @ [s]"] obtain w'
      where loop: "update_loop upd e d (Suc i) (tr @ [s]) w1
                     = Some (w', (tr @ [s]) @ drop (Suc i) (systems_of w' e))"
        and p: "prefix (systems_of w1 e) (systems_of w' e)"
        and dd: "distinct (systems_of w1 e) \<longrightarrow> distinct (systems_of w' e)"
      by blast
    from appends_new_prefix [OF a] p have p0: "prefix (systems_of w e) (systems_of w' e)"
      by (rule prefix_order.trans)
    then obtain zs where zs: "systems_of w' e = systems_of w e @ zs"
      by (auto simp: prefix_def)
    have si: "systems_of w' e ! i = s" and lt: "i < length (systems_of w' e)"
      using True by (simp_all add: zs nth_append s_def)
    have "update_loop upd e d i tr w = Some (w', tr @ drop i (systems_of w' e))"
      using True loop Cons_nth_drop_Suc [OF lt]
      by (simp add: update_loop_step w1_def s_def si [unfolded s_def])
    moreover have "distinct (systems_of w e) \<longrightarrow> distinct (systems_of w' e)"
      using dd appends_new_distinct [OF a] by blast
    ultimately show ?thesis using p0 by blast
  qed
qed


lemma invoked_before_extended:
  assumes "invoked_before L a b" and "distinct (L @ added)"
  shows "invoked_before (L @ added) a b"
proof -
  from assms(1) have a: "a \<in> set L" and b: "b \<in> set L"
    and ord: "\<And>i j. i < length L \<Longrightarrow> j < length L \<Longrightarrow> L ! i = a \<Longrightarrow> L ! j = b \<Longrightarrow> i < j"
    by (simp_all add: invoked_before_def)
  have inL: "i < length L" if "i < length (L @ added)" "(L @ added) ! i = c" "c \<in> set L" for i c
  proof -
    from that(3) obtain i' where i': "i' < length L" "L ! i' = c"
      by (auto simp: in_set_conv_nth)
    then have "(L @ added) ! i' = (L @ added) ! i" "i' < length (L @ added)"
      using that(2) by (simp_all add: nth_append)
    with assms(2) that(1) have "i' = i"
      by (simp only: nth_eq_iff_index_eq)
    with i' show ?thesis by simp
  qed
  have "i < j" if "i < length (L @ added)" "j < length (L @ added)"
    "(L @ added) ! i = a" "(L @ added) ! j = b" for i j
  proof -
    have "i < length L" "j < length L"
      using inL that a b by blast+
    with that(3,4) ord show ?thesis by (simp add: nth_append)
  qed
  with a b show ?thesis
    by (simp add: invoked_before_def)
qed

section \<open>Ticks: priority order and changes during a tick\<close>

lemma two_systems_fields [simp]:
  "systems_of two_systems 0 = [11, 12]"
  "priority_of two_systems 11 = 5"
  "priority_of two_systems 12 = 0"
  "needs_sorting two_systems 0"
  "engines_of two_systems 11 = [0]"
  "engines_of two_systems 12 = [0]"
  by (simp_all add: two_systems_def systems_of_addSystem engines_of_addSystem)

lemma three_systems_fields [simp]:
  "systems_of three_systems 0 = [11, 12, 13]"
  "priority_of three_systems 11 = 0"
  "priority_of three_systems 12 = 1"
  "priority_of three_systems 13 = 2"
  "needs_sorting three_systems 0"
  by (simp_all add: three_systems_def systems_of_addSystem engines_of_addSystem)

lemma update_loop_induct:
  assumes loop: "update_loop upd e d i tr w = Some r"
    and stop: "\<And>i tr w. length (systems_of w e) \<le> i \<Longrightarrow> P i tr w (w, tr)"
    and step: "\<And>i tr w r. i < length (systems_of w e) \<Longrightarrow>
        P (Suc i) (tr @ [systems_of w e ! i]) (upd (systems_of w e ! i) e d w) r \<Longrightarrow>
        P i tr w r"
  shows "P i tr w r"
proof -
  let ?P = "\<lambda>upd' e' d' i' tr' v y. upd' = upd \<longrightarrow> e' = e \<longrightarrow> d' = d \<longrightarrow> P i' tr' v y"
  have main: "?P u e' d' i' tr' v y"
    if IH: "\<And>u e' d' i' tr' v y. ul u e' d' i' tr' v = Some y \<Longrightarrow> ?P u e' d' i' tr' v y"
      and eq: "(if i' < length (e_systems (engine_of v e'))
           then ul u e' d' (Suc i') (tr' @ [e_systems (engine_of v e') ! i'])
                  (u (e_systems (engine_of v e') ! i') e' d' v)
           else Some (v, tr')) = Some y"
    for ul u e' d' i' tr' v y
  proof (cases "i' < length (e_systems (engine_of v e'))")
    case False
    with eq stop [of v i' tr'] show ?thesis by (auto simp: systems_of_def)
  next
    case True
    with eq have "ul u e' d' (Suc i') (tr' @ [e_systems (engine_of v e') ! i'])
                  (u (e_systems (engine_of v e') ! i') e' d' v) = Some y"
      by simp
    from IH [OF this] step [of i' v tr' y] True show ?thesis by (auto simp: systems_of_def)
  qed
  have "?P upd e d i tr w r"
  proof (rule update_loop.raw_induct [where P = ?P])
    fix ul u e' d' i' tr' v y
    assume "\<And>u e' d' i' tr' v y. ul u e' d' i' tr' v = Some y \<Longrightarrow> ?P u e' d' i' tr' v y"
      and "(if i' < length (e_systems (engine_of v e'))
           then ul u e' d' (Suc i') (tr' @ [e_systems (engine_of v e') ! i'])
                  (u (e_systems (engine_of v e') ! i') e' d' v)
           else Some (v, tr')) = Some y"
    then show "?P u e' d' i' tr' v y" by (rule main)
  qed (rule loop)
  then show ?thesis by simp
qed

lemma update_loop_chain_spawner:
  assumes loop: "update_loop chain_spawner e d i tr w = Some r"
  shows "\<not> (systems_of w e = map (\<lambda>j. j + 11) [0..<length (systems_of w e)]
            \<and> i < length (systems_of w e))"
proof (rule update_loop_induct [where P = "\<lambda>i tr v y.
         \<not> (systems_of v e = map (\<lambda>j. j + 11) [0..<length (systems_of v e)]
            \<and> i < length (systems_of v e))", OF loop])
  fix i and w :: world
  assume "length (systems_of w e) \<le> i"
  then show "\<not> (systems_of w e = map (\<lambda>j. j + 11) [0..<length (systems_of w e)]
            \<and> i < length (systems_of w e))"
    by simp
next
  fix i and w :: world
  let ?w2 = "chain_spawner (systems_of w e ! i) e d w"
  assume lt: "i < length (systems_of w e)"
    and IH: "\<not> (systems_of ?w2 e = map (\<lambda>j. j + 11) [0..<length (systems_of ?w2 e)]
            \<and> Suc i < length (systems_of ?w2 e))"
  have eq: "systems_of ?w2 e =
      (if Suc (systems_of w e ! i) \<in> set (systems_of w e) then systems_of w e
       else systems_of w e @ [Suc (systems_of w e ! i)])"
    by (simp add: chain_spawner_def systems_of_addSystem)
  show "\<not> (systems_of w e = map (\<lambda>j. j + 11) [0..<length (systems_of w e)]
            \<and> i < length (systems_of w e))"
  proof
    assume "systems_of w e = map (\<lambda>j. j + 11) [0..<length (systems_of w e)]
            \<and> i < length (systems_of w e)"
    then have "systems_of w e = map (\<lambda>j. j + 11) [0..<length (systems_of w e)]" by simp
    from chain_step [OF this lt]
    have "systems_of ?w2 e = map (\<lambda>j. j + 11) [0..<length (systems_of ?w2 e)]
            \<and> Suc i < length (systems_of ?w2 e)"
      unfolding eq .
    with IH show False by (rule notE)
  qed
qed

text \<open>A tick need not end: when the \<open>update\<close> of every System adds a further System,
  the loop never reaches the end of the list.\<close>

lemma update_chain_spawner_never_returns: "update chain_spawner 0 0 three_systems = None"
proof (cases "update chain_spawner 0 0 three_systems")
  case (Some r)
  then have "update_loop chain_spawner 0 0 0 [] (sort_systems 0 three_systems) = Some r"
    by (simp add: update_def)
  from update_loop_chain_spawner [OF this] show ?thesis
    by (simp add: upt_rec)
qed simp

lemma update_loop_idle:
  "update_loop idle e d i tr w = Some (w, tr @ drop i (systems_of w e))"
proof (induction "length (systems_of w e) - i" arbitrary: i tr)
  case 0
  then show ?case by (simp add: update_loop_stop)
next
  case (Suc n)
  then have lt: "i < length (systems_of w e)" by simp
  have "n = length (systems_of w e) - Suc i" using Suc.hyps(2) by simp
  from Suc.hyps(1) [OF this, of "tr @ [systems_of w e ! i]"] lt show ?case
    by (simp add: update_loop_step idle_def Cons_nth_drop_Suc)
qed

lemma update_idle:
  "update idle e d w = Some (sort_systems e w, systems_of (sort_systems e w) e)"
  by (simp add: update_def update_loop_idle)

lemma not_invoked_before:
  "i < length L \<Longrightarrow> j < length L \<Longrightarrow> L ! i = a \<Longrightarrow> L ! j = b \<Longrightarrow> j \<le> i \<Longrightarrow> \<not> invoked_before L a b"
  unfolding invoked_before_def by (metis not_less)

lemma two_systems_ticked_eq: "two_systems_ticked = sort_systems 0 two_systems"
  by (simp add: two_systems_ticked_def update_idle)

lemma tick_outcome_Some [simp]:
  "tick_outcome e (Some (w, invoked)) = Some (invoked, systems_of w e)"
  by (simp add: tick_outcome_def)

text \<open>A removal alone breaks the order of a tick. With Systems 11, 12 and 13 of priorities
  0, 1 and 2, the \<open>update\<close> of System 11 removes System 11: the list becomes 12, 13 and
  the loop goes on at index 1, so the tick invokes 11 and 13, and System 12, attached the
  whole time, is not invoked.\<close>

lemma update_leaving_skips:
  "tick_outcome 0 (update leaving 0 0 three_systems) = Some ([11, 13], [12, 13])
   \<and> \<not> invoked_before [11, 13] 12 13"
  by (simp add: update_def update_loop_step update_loop_stop leaving_def
      systems_of_removeSystem invoked_before_def)

text \<open>
  Claim C1, as amended. Take an Engine whose System list holds no System twice and is
  sorted by priority whenever its sort-needed flag is clear (the state that \<open>addSystem\<close>,
  \<open>removeSystem\<close>, the priority setter and \<open>update\<close> maintain), and a tick that ends
  and in which each \<open>update\<close> of a System that is invoked leaves the Engine's System list
  as it was or appends to it Systems that were not attached. Then \<open>update\<close> returns, the
  Systems it invoked are the System list stably sorted by the priorities at the start of
  the tick (Systems of equal priority keep their relative order) followed by the Systems
  appended during the tick, the sort leaves the flag clear, and of two Systems with
  priorities \<open>p1 < p2\<close> at the start of the tick the first is invoked strictly before
  the second.
\<close>

theorem update_priority_order:
  assumes inv: "\<not> needs_sorting w e \<longrightarrow> sorted (map (priority_of w) (systems_of w e))"
    and dist: "distinct (systems_of w e)"
    and run: "appending_run upd e delta n 0 (sort_systems e w)"
  shows "\<exists>w' added.
        update upd e delta w = Some (w', sort_key (priority_of w) (systems_of w e) @ added)
      \<and> systems_of w' e = sort_key (priority_of w) (systems_of w e) @ added
      \<and> systems_of (sort_systems e w) e = sort_key (priority_of w) (systems_of w e)
      \<and> \<not> needs_sorting (sort_systems e w) e
      \<and> (\<forall>k. filter (\<lambda>s. priority_of w s = k) (sort_key (priority_of w) (systems_of w e))
             = filter (\<lambda>s. priority_of w s = k) (systems_of w e))
      \<and> (\<forall>s1 \<in> set (systems_of w e). \<forall>s2 \<in> set (systems_of w e).
            priority_of w s1 < priority_of w s2 \<longrightarrow>
            invoked_before (sort_key (priority_of w) (systems_of w e) @ added) s1 s2)"
proof -
  define L where "L = sort_key (priority_of w) (systems_of w e)"
  define w1 where "w1 = sort_systems e w"
  have L: "systems_of w1 e = L"
    using inv by (simp add: sort_key_id_if_sorted L_def w1_def)
  have dL: "distinct L"
    using dist by (simp add: L_def)
  have flag: "\<not> needs_sorting w1 e" by (simp add: w1_def)
  from appending_run_loop [OF run, of "[]"] obtain w'
    where loop: "update_loop upd e delta 0 [] w1 = Some (w', systems_of w' e)"
      and p: "prefix L (systems_of w' e)"
      and d: "distinct (systems_of w' e)"
    using dL by (auto simp: L w1_def [symmetric])
  from p obtain added where added: "systems_of w' e = L @ added"
    by (auto simp: prefix_def)
  have upd: "update upd e delta w = Some (w', L @ added)"
    using loop by (simp add: update_def w1_def [symmetric] added)
  have stable: "filter (\<lambda>s. priority_of w s = k) L
      = filter (\<lambda>s. priority_of w s = k) (systems_of w e)" for k
    unfolding L_def by (rule sort_key_stable)
  have order: "invoked_before (L @ added) s1 s2"
    if "s1 \<in> set (systems_of w e)" "s2 \<in> set (systems_of w e)"
      "priority_of w s1 < priority_of w s2" for s1 s2
  proof (rule invoked_before_extended)
    show "invoked_before L s1 s2"
      using that by (intro sorted_invoked_before [where f = "priority_of w"]) (simp_all add: L_def)
    show "distinct (L @ added)" using d added by simp
  qed
  show ?thesis
    using upd added L flag stable order unfolding L_def w1_def by blast
qed

theorem update_priority_order_witness:
  "needs_sorting two_systems 0
   \<and> systems_of two_systems 0 = [11, 12]
   \<and> priority_of two_systems 12 < priority_of two_systems 11
   \<and> appending_run idle 0 0 (Suc (Suc 0)) 0 (sort_systems 0 two_systems)
   \<and> tick_outcome 0 (update idle 0 0 two_systems) = Some ([12, 11], [12, 11])
   \<and> \<not> needs_sorting two_systems_ticked 0
   \<and> systems_of two_systems_ticked 0 = [12, 11]
   \<and> appending_run idle 0 0 (Suc (Suc 0)) 0 (sort_systems 0 two_systems_ticked)
   \<and> tick_outcome 0 (update idle 0 0 two_systems_ticked) = Some ([12, 11], [12, 11])
   \<and> appending_run spawner 0 0 (Suc (Suc (Suc 0))) 0 (sort_systems 0 two_systems)
   \<and> tick_outcome 0 (update spawner 0 0 two_systems) = Some ([12, 11, 19], [12, 11, 19])"
proof -
  have 1: "appending_run idle 0 0 (Suc (Suc 0)) 0 (sort_systems 0 two_systems)"
    "appending_run idle 0 0 (Suc (Suc 0)) 0 (sort_systems 0 two_systems_ticked)"
    by (simp_all add: idle_def appends_new_def two_systems_ticked_eq)
  have 2: "appending_run spawner 0 0 (Suc (Suc (Suc 0))) 0 (sort_systems 0 two_systems)"
    by (simp add: spawner_def appends_new_def systems_of_addSystem)
  have 3: "tick_outcome 0 (update spawner 0 0 two_systems) = Some ([12, 11, 19], [12, 11, 19])"
    by (simp add: update_def update_loop_step update_loop_stop spawner_def systems_of_addSystem)
  have 4: "needs_sorting two_systems 0" "systems_of two_systems 0 = [11, 12]"
    "priority_of two_systems 12 < priority_of two_systems 11"
    "tick_outcome 0 (update idle 0 0 two_systems) = Some ([12, 11], [12, 11])"
    "\<not> needs_sorting two_systems_ticked 0" "systems_of two_systems_ticked 0 = [12, 11]"
    "tick_outcome 0 (update idle 0 0 two_systems_ticked) = Some ([12, 11], [12, 11])"
    by (simp_all add: two_systems_ticked_eq update_idle)
  have 5: "\<not> needs_sorting two_systems 0 \<longrightarrow>
             sorted (map (priority_of two_systems) (systems_of two_systems 0))"
    "distinct (systems_of two_systems 0)"
    "\<not> needs_sorting two_systems_ticked 0 \<longrightarrow>
       sorted (map (priority_of two_systems_ticked) (systems_of two_systems_ticked 0))"
    "distinct (systems_of two_systems_ticked 0)"
    by (simp_all add: two_systems_ticked_eq)
  from 1 2 3 4
    update_priority_order [of two_systems 0 idle 0 "Suc (Suc 0)", OF 5(1) 5(2) 1(1)]
    update_priority_order [of two_systems_ticked 0 idle 0 "Suc (Suc 0)", OF 5(3) 5(4) 1(2)]
    update_priority_order [of two_systems 0 spawner 0 "Suc (Suc (Suc 0))", OF 5(1) 5(2) 2]
  show ?thesis by blast
qed

text \<open>
  Claim C1 as stated, for every tick, fails: the loop reads the live System list, so a
  System whose \<open>update\<close> removes another System and adds it again moves that System to
  the end of the list. With Systems 11, 12 and 13 of priorities 0, 1 and 2, and System 11
  doing so to System 12, the tick invokes 11, 13, 12: System 13 runs before System 12,
  whose priority is lower.
\<close>

theorem update_reattach_counterexample:
  "systems_of three_systems 0 = [11, 12, 13]
   \<and> priority_of three_systems 12 < priority_of three_systems 13
   \<and> map_option snd (update reattach 0 0 three_systems) = Some [11, 13, 12]
   \<and> \<not> invoked_before [11, 13, 12] 12 13"
proof -
  have "\<not> invoked_before [11, 13, 12] 12 13"
    by (rule not_invoked_before [of 2 _ 1]) simp_all
  moreover have "map_option snd (update reattach 0 0 three_systems) = Some [11, 13, 12]"
    by (simp add: update_def update_loop_step update_loop_stop reattach_def
        systems_of_addSystem systems_of_removeSystem)
  ultimately show ?thesis by simp
qed

text \<open>
  Claim C7. Writing a System's priority stores the value and sets the sort-needed flag of
  every Engine in the System's list of attached Engines (an Engine enters that list when
  \<open>addSystem\<close> attaches the System); it sorts nothing, every Engine keeps its System
  list, and an Engine that is not attached is unchanged. For an attached Engine the next
  \<open>update\<close> therefore begins by sorting: it runs its loop on the store in which the
  System list is sorted by the new priorities and the flag is clear, whatever the flag
  was before the write.
\<close>

theorem set_priority_marks_engines:
  "priority_of (set_priority s v w) s = v
   \<and> (\<forall>e. systems_of (set_priority s v w) e = systems_of w e)
   \<and> (\<forall>e. e \<notin> set (engines_of w s) \<longrightarrow> engine_of (set_priority s v w) e = engine_of w e)
   \<and> (\<forall>e \<in> set (engines_of w s).
          needs_sorting (set_priority s v w) e
        \<and> update upd e delta (set_priority s v w) =
            update_loop upd e delta 0 [] (sort_systems e (set_priority s v w))
        \<and> systems_of (sort_systems e (set_priority s v w)) e =
            sort_key (priority_of (set_priority s v w)) (systems_of w e)
        \<and> \<not> needs_sorting (sort_systems e (set_priority s v w)) e)
   \<and> (s \<notin> set (systems_of w e') \<longrightarrow> e' \<in> set (engines_of (addSystem e' s w) s))"
proof -
  have "engine_of (set_priority s v w) e = engine_of w e" if "e \<notin> set (engines_of w s)" for e
    using that by (simp add: set_priority_engine engines_of_def)
  moreover have "e' \<in> set (engines_of (addSystem e' s w) s)" if "s \<notin> set (systems_of w e')"
    using that by (simp add: engines_of_addSystem)
  ultimately show ?thesis
    by (simp add: update_def)
qed

theorem set_priority_marks_engines_witness:
  "0 \<in> set (engines_of two_systems_ticked 11)
   \<and> \<not> needs_sorting two_systems_ticked 0
   \<and> systems_of two_systems_ticked 0 = [12, 11]
   \<and> needs_sorting (set_priority 11 (- 5) two_systems_ticked) 0
   \<and> systems_of (set_priority 11 (- 5) two_systems_ticked) 0 = [12, 11]
   \<and> systems_of (sort_systems 0 (set_priority 11 (- 5) two_systems_ticked)) 0 = [11, 12]
   \<and> map_option snd (update idle 0 0 (set_priority 11 (- 5) two_systems_ticked)) = Some [11, 12]"
  using set_priority_marks_engines [where s = 11 and v = "- 5" and w = two_systems_ticked
      and upd = idle and delta = 0 and e' = 0]
  by (simp add: two_systems_ticked_eq update_loop_idle)





section \<open>Blueprints and the EntityFactory\<close>

lemma propertyKey_0: "propertyKey (JNum 0) = ''0''" "propertyKey (JNum 12) = ''12''"
   "propertyKey (JNum (- 3)) = ''-3''"
  by (simp_all add: digits.simps)

lemma app_world_fields:
  "e_blueprintTypes (engine_of app_world 0) = Some BlueprintType"
  "e_entityFactory (engine_of app_world 0) =
     Some (EntityFactory_new [Renderable, Player] [PositionComponent, RenderComponent])"
  by (simp_all add: app_world_def start_def addBlueprint_def Engine_new_def world0_def
      upd_engine_def indexOf_def Renderable_def Player_def Let_def)

lemma find_blueprint_Some:
  "find_blueprint bps n = Some b \<Longrightarrow> b \<in> set bps \<and> n = JStr (bp_name b)"
  by (induction bps) (auto split: if_splits)

lemma resolve_Cons_Inr:
  assumes "resolve bps path (n # ns) = Inr cs"
  shows "n \<notin> set path \<and> (\<exists>b pcs ds. find_blueprint bps n = Some b
      \<and> resolve bps (n # path) (parents b) = Inr pcs \<and> resolve bps path ns = Inr ds
      \<and> cs = pcs @ bp_components b @ ds)"
  using assms by (auto split: if_splits option.splits sum.splits)



lemma resolve_errors:
  "resolve bps path ns = Inl err \<Longrightarrow>
   err = CyclicBlueprintInheritance \<or> (\<exists>p. err = UnknownBlueprint p \<and> find_blueprint bps p = None)"
  by (induction bps path ns arbitrary: err rule: resolve.induct)
    (auto split: if_splits option.splits sum.splits)




lemma buildEntity_delegated:
  "e_entityFactory (engine_of w e) = Some f \<Longrightarrow> delegated w e k = Some v \<Longrightarrow>
   buildEntity e k w = EntityFactory_buildEntity f v"
  by (auto simp: buildEntity_def delegated_def split: option.splits if_splits)

lemma delegated_no_enumeration:
  "e_blueprintTypes (engine_of w e) = None \<Longrightarrow> delegated w e k = Some k"
  by (simp add: delegated_def)



lemma fold_putComponent_other:
  "\<forall>c \<in> set cs. cc_name (component c) \<noteq> x \<Longrightarrow> fold putComponent cs ent x = ent x"
  by (induction cs arbitrary: ent) (auto simp: putComponent_def)

lemma fold_putComponent_last:
  assumes "\<forall>c' \<in> set cs2. cc_name (component c') \<noteq> cc_name (component c)"
  shows "fold putComponent (cs0 @ c # cs2) ent (cc_name (component c)) = Some (instantiate c)"
  using assms by (simp add: fold_putComponent_other) (simp add: putComponent_def)

lemma merge_world_fields:
  "e_blueprintTypes (engine_of merge_world 0) = None"
  "e_entityFactory (engine_of merge_world 0) = Some (EntityFactory_new [merge_A, merge_B] [X_class])"
  by (simp_all add: merge_world_def start_def addBlueprint_def Engine_new_def world0_def
      upd_engine_def indexOf_def merge_A_def merge_B_def Let_def)

lemma merge_world_build:
  "buildEntity 0 (JStr ''B'') merge_world =
     Inr (fold putComponent (bp_components merge_A @ bp_components merge_B) Map.empty)"
  by (simp add: buildEntity_def merge_world_fields EntityFactory_buildEntity_def
      EntityFactory_new_def parents_def merge_A_def merge_B_def)

lemma addBlueprint_frame:
  "e_entityFactory (engine_of (addBlueprint e b w) e') = e_entityFactory (engine_of w e')"
  "e_blueprintTypes (engine_of (addBlueprint e b w) e') = e_blueprintTypes (engine_of w e')"
  "e_components (engine_of (addBlueprint e b w) e') = e_components (engine_of w e')"
  by (simp_all add: addBlueprint_def upd_engine_def)

lemma blueprints_addBlueprint:
  "e_blueprints (engine_of (addBlueprint e b w) e') =
     (if e' = e \<and> indexOf (map bp_ref (e_blueprints (engine_of w e))) (bp_ref b) = - 1
      then e_blueprints (engine_of w e) @ [b] else e_blueprints (engine_of w e'))"
  by (simp add: addBlueprint_def upd_engine_def)

lemma Engine_new_fields:
  "e_blueprints (engine_of (Engine_new e c t w) e) = []"
  "e_blueprintTypes (engine_of (Engine_new e c t w) e) = t"
  "e_components (engine_of (Engine_new e c t w) e) = c"
  "e_entityFactory (engine_of (Engine_new e c t w) e) = None"
  by (simp_all add: Engine_new_def Let_def)

lemma addBlueprints_frame:
  "e_entityFactory (engine_of (addBlueprints e bs w) e') = e_entityFactory (engine_of w e')"
  "e_blueprintTypes (engine_of (addBlueprints e bs w) e') = e_blueprintTypes (engine_of w e')"
  "e_components (engine_of (addBlueprints e bs w) e') = e_components (engine_of w e')"
  unfolding addBlueprints_def
  by (induction bs arbitrary: w) (simp_all add: addBlueprint_frame)

lemma addBlueprints_registry:
  "e_blueprints (engine_of w e) = e_blueprints (engine_of w' e) \<Longrightarrow>
   e_blueprints (engine_of (addBlueprints e bs w) e) = e_blueprints (engine_of (addBlueprints e bs w') e)"
  unfolding addBlueprints_def
proof (induction bs arbitrary: w w')
  case Nil
  then show ?case by simp
next
  case (Cons b bs)
  have "e_blueprints (engine_of (addBlueprint e b w) e) = e_blueprints (engine_of (addBlueprint e b w') e)"
    using Cons.prems by (simp add: addBlueprint_def upd_engine_def)
  from Cons.IH [OF this] show ?case by simp
qed

lemma start_fields:
  "e_blueprints (engine_of (start e w) e') = e_blueprints (engine_of w e')"
  "e_blueprintTypes (engine_of (start e w) e') = e_blueprintTypes (engine_of w e')"
  "e_components (engine_of (start e w) e') = e_components (engine_of w e')"
  "e_entityFactory (engine_of (start e w) e) =
     Some (EntityFactory_new (e_blueprints (engine_of w e)) (e_components (engine_of w e)))"
  by (simp_all add: start_def upd_engine_def)

lemma buildEntity_fields:
  "e_blueprintTypes (engine_of w e) = e_blueprintTypes (engine_of w' e) \<Longrightarrow>
   e_entityFactory (engine_of w e) = e_entityFactory (engine_of w' e) \<Longrightarrow>
   buildEntity e k w = buildEntity e k w'"
  unfolding buildEntity_def by presburger

text \<open>
  Claim C2. \<open>start\<close> builds the EntityFactory over the blueprints registered at that
  moment. Blueprints added afterwards enter the Engine's registry but leave the factory as
  it is, and every \<open>buildEntity\<close> call gives the result it gave before they were added;
  a second \<open>start\<close> builds a factory over the grown registry.
\<close>

theorem start_snapshots_registry:
  "e_entityFactory (engine_of (start e w) e) =
     Some (EntityFactory_new (e_blueprints (engine_of w e)) (e_components (engine_of w e)))
   \<and> e_entityFactory (engine_of (addBlueprints e bs (start e w)) e) =
       e_entityFactory (engine_of (start e w) e)
   \<and> buildEntity e key (addBlueprints e bs (start e w)) = buildEntity e key (start e w)
   \<and> e_blueprints (engine_of (addBlueprints e bs (start e w)) e) =
       e_blueprints (engine_of (addBlueprints e bs w) e)
   \<and> e_entityFactory (engine_of (start e (addBlueprints e bs (start e w))) e) =
       Some (EntityFactory_new (e_blueprints (engine_of (addBlueprints e bs w) e))
               (e_components (engine_of w e)))"
proof -
  have reg: "e_blueprints (engine_of (addBlueprints e bs (start e w)) e) =
       e_blueprints (engine_of (addBlueprints e bs w) e)"
    by (rule addBlueprints_registry) (simp add: start_fields)
  have "buildEntity e key (addBlueprints e bs (start e w)) = buildEntity e key (start e w)"
    by (rule buildEntity_fields) (simp_all add: addBlueprints_frame)
  with reg show ?thesis
    by (simp add: start_fields addBlueprints_frame)
qed

theorem start_snapshots_registry_witness:
  "map bp_name (e_blueprints (engine_of late_world 0)) = [''A'', ''B'']
   \<and> buildEntity 0 (JStr ''B'') late_world = Inl (UnknownBlueprint (JStr ''B''))
   \<and> (\<exists>ent. buildEntity 0 (JStr ''B'') (start 0 late_world) = Inr ent)"
proof -
  let ?w = "addBlueprint 0 merge_A (Engine_new 0 [X_class] None world0)"
  have f: "e_blueprintTypes (engine_of ?w 0) = None" "e_blueprints (engine_of ?w 0) = [merge_A]"
    "e_components (engine_of ?w 0) = [X_class]"
    by (simp_all add: blueprints_addBlueprint addBlueprint_frame indexOf_def Engine_new_fields)
  have reg: "e_blueprints (engine_of (addBlueprints 0 [merge_B] ?w) 0) = [merge_A, merge_B]"
    unfolding addBlueprints_def
    by (simp add: blueprints_addBlueprint Engine_new_fields indexOf_def)
      (simp add: merge_A_def merge_B_def)
  from start_snapshots_registry [of 0 ?w "[merge_B]" "JStr ''B''"]
  have 1: "buildEntity 0 (JStr ''B'') late_world = buildEntity 0 (JStr ''B'') (start 0 ?w)"
    and 2: "e_blueprints (engine_of late_world 0) = [merge_A, merge_B]"
    and 3: "e_entityFactory (engine_of (start 0 late_world) 0) =
       Some (EntityFactory_new [merge_A, merge_B] [X_class])"
    unfolding late_world_def reg f by simp_all
  have 4: "buildEntity 0 (JStr ''B'') (start 0 ?w) = Inl (UnknownBlueprint (JStr ''B''))"
    unfolding buildEntity_def start_fields f
    by (simp add: EntityFactory_buildEntity_def EntityFactory_new_def merge_A_def)
  have "e_blueprintTypes (engine_of (start 0 late_world) 0) = None"
    unfolding start_fields late_world_def addBlueprints_frame f ..
  with 3 have 5: "\<exists>ent. buildEntity 0 (JStr ''B'') (start 0 late_world) = Inr ent"
    by (simp add: buildEntity_def EntityFactory_buildEntity_def EntityFactory_new_def
        parents_def merge_A_def merge_B_def)
  show ?thesis
    using 1 2 4 5 by (simp add: merge_A_def merge_B_def)
qed

lemma EntityFactory_never_invalid:
  "EntityFactory_buildEntity f v \<noteq> Inl (InvalidBlueprintType k)"
  using resolve_errors [of "ef_blueprints f" "[]" "[v]" "InvalidBlueprintType k"]
  by (auto simp: EntityFactory_buildEntity_def split: sum.splits)

lemma buildEntity_validation:
  assumes "e_blueprintTypes (engine_of w e) = Some types"
  shows "(buildEntity e k w = Inl (InvalidBlueprintType k')) =
           (k' = k \<and> \<not> truthy (types (propertyKey k)))"
    and "truthy (types (propertyKey k)) \<Longrightarrow> e_entityFactory (engine_of w e) = Some f \<Longrightarrow>
         \<exists>v. types (propertyKey k) = Some v \<and> buildEntity e k w = EntityFactory_buildEntity f v"
  using assms EntityFactory_never_invalid
  by (cases "types (propertyKey k)"; auto simp: buildEntity_def split: option.splits)+

lemma digits_0: "digits 0 = ''0''"
  by (simp add: digits.simps)

text \<open>
  Claim C3, at the input where the code departs from it. The Engine holds the object of
  \<open>enum BlueprintType { Renderable, Player }\<close>. The key \<open>Renderable\<close> is a member of the
  enumeration, with value 0; \<open>buildEntity\<close> tests the value for truthiness, finds 0 and
  fails with InvalidBlueprintType naming the key.
\<close>

theorem buildEntity_member_rejected:
  "BlueprintType ''Renderable'' = Some (JNum 0)
   \<and> buildEntity 0 (JStr ''Renderable'') app_world
       = Inl (InvalidBlueprintType (JStr ''Renderable''))
   \<and> BlueprintType ''Player'' = Some (JNum 1)
   \<and> buildEntity 0 (JStr ''Player'') app_world \<noteq> Inl (InvalidBlueprintType (JStr ''Player''))
   \<and> (\<exists>ent. buildEntity 0 (JNum 0) app_world = Inr ent)"
proof -
  have "buildEntity 0 (JStr ''Player'') app_world \<noteq> Inl (InvalidBlueprintType (JStr ''Player''))"
    by (simp add: buildEntity_validation(1) [OF app_world_fields(1)] BlueprintType_def)
  moreover have "\<exists>ent. buildEntity 0 (JNum 0) app_world = Inr ent"
    by (simp add: buildEntity_def app_world_fields BlueprintType_def digits_0
        EntityFactory_buildEntity_def EntityFactory_new_def Renderable_def Player_def parents_def)
  ultimately show ?thesis
    by (simp add: buildEntity_def app_world_fields BlueprintType_def)
qed




text \<open>
  Claim C5. Let \<open>buildEntity\<close> on a registered blueprint succeed. The component list it
  applies is the list resolved from the parents followed by the blueprint's own list, so
  for a component \<open>c\<close> of the blueprint itself that no later component of its own list
  shares its name with, the Entity holds the instance built from \<open>c\<close> under that name,
  whatever the parents supply: the child's entry wins.
\<close>

theorem buildEntity_child_overrides_parent:
  assumes started: "e_entityFactory (engine_of w e) = Some f"
    and key: "delegated w e k = Some (JStr name)"
    and child: "find_blueprint (ef_blueprints f) (JStr name) = Some B"
    and built: "buildEntity e k w = Inr ent"
    and own: "bp_components B = cs1 @ c # cs2"
    and last: "\<forall>c' \<in> set cs2. cc_name (component c') \<noteq> cc_name (component c)"
  shows "(\<exists>pcs. resolve (ef_blueprints f) [JStr name] (parents B) = Inr pcs
          \<and> resolve (ef_blueprints f) [] [JStr name] = Inr (pcs @ bp_components B)
          \<and> ent = fold putComponent (pcs @ bp_components B) Map.empty)
    \<and> ent (cc_name (component c)) = Some (instantiate c)"
proof -
  have build: "buildEntity e k w =
      (case resolve (ef_blueprints f) [] [JStr name] of Inl err \<Rightarrow> Inl err
       | Inr cs \<Rightarrow> Inr (fold putComponent cs Map.empty))"
    by (simp add: buildEntity_delegated [OF started key] EntityFactory_buildEntity_def)
  with built obtain cs where cs: "resolve (ef_blueprints f) [] [JStr name] = Inr cs"
    and ent: "ent = fold putComponent cs Map.empty"
    by (auto split: sum.splits)
  from resolve_Cons_Inr [OF cs] child
  obtain pcs where pcs: "resolve (ef_blueprints f) [JStr name] (parents B) = Inr pcs"
    and flat: "cs = pcs @ bp_components B"
    by auto
  have "ent (cc_name (component c)) = Some (instantiate c)"
    using fold_putComponent_last [OF last, of "pcs @ cs1" Map.empty]
    by (simp add: ent flat own)
  with pcs cs flat ent show ?thesis by blast
qed

theorem buildEntity_child_overrides_parent_witness:
  "\<exists>ent inst. buildEntity 0 (JStr ''B'') merge_world = Inr ent
      \<and> ent ''X'' = Some inst \<and> inst ''v'' = Some (JNum 2)"
proof -
  let ?c = "\<lparr>component = X_class, values_of = Some [''v'' \<mapsto> JNum 2]\<rparr>"
  let ?ent = "fold putComponent (bp_components merge_A @ bp_components merge_B) Map.empty"
  have "?ent (cc_name (component ?c)) = Some (instantiate ?c)"
    by (rule buildEntity_child_overrides_parent [of merge_world 0
          "EntityFactory_new [merge_A, merge_B] [X_class]" "JStr ''B''" "''B''" merge_B ?ent
          "[]" ?c "[]", THEN conjunct2])
      (simp_all add: merge_world_fields merge_world_build delegated_no_enumeration
          EntityFactory_new_def,
        simp_all add: merge_B_def merge_A_def)
  then have "?ent ''X'' = Some (instantiate ?c)" "instantiate ?c ''v'' = Some (JNum 2)"
    by (simp_all add: X_class_def instantiate_def)
  with merge_world_build show ?thesis by blast
qed

section \<open>The invariants are maintained\<close>

lemma engine_ok_Engine_new: "engine_ok (Engine_new e c t w) e"
  by (simp add: engine_ok_def)

lemma engine_ok_addSystem:
  assumes "engine_ok w e"
  shows "engine_ok (addSystem e' s w) e"
proof (cases "e' = e \<and> s \<notin> set (systems_of w e)")
  case True
  with assms show ?thesis
    by (auto simp: engine_ok_def systems_of_addSystem engines_of_addSystem)
next
  case False
  with assms show ?thesis
    by (auto simp: engine_ok_def systems_of_addSystem engines_of_addSystem)
qed

lemma engine_ok_removeSystem:
  assumes "engine_ok w e"
  shows "engine_ok (removeSystem e' s w) e"
proof (cases "e' = e")
  case True
  with assms show ?thesis
    by (auto simp: engine_ok_def systems_of_removeSystem engines_of_removeSystem
        sorted_map_remove1)
next
  case False
  with assms show ?thesis
    by (auto simp: engine_ok_def systems_of_removeSystem engines_of_removeSystem)
qed

lemma engine_ok_set_priority:
  assumes "engine_ok w e"
  shows "engine_ok (set_priority s v w) e"
proof (cases "e \<in> set (engines_of w s)")
  case True
  with assms show ?thesis
    by (simp add: engine_ok_def)
next
  case False
  have eq: "map (priority_of (set_priority s v w)) (systems_of w e)
      = map (priority_of w) (systems_of w e)"
  proof (rule map_cong [OF refl])
    fix s' assume "s' \<in> set (systems_of w e)"
    with assms False have "s' \<noteq> s" by (auto simp: engine_ok_def)
    then show "priority_of (set_priority s v w) s' = priority_of w s'" by simp
  qed
  have sys: "systems_of (set_priority s v w) e = systems_of w e"
    and ns: "needs_sorting (set_priority s v w) e = needs_sorting w e"
    and eng: "engines_of (set_priority s v w) = engines_of w"
    using False by (simp_all add: fun_eq_iff)
  show ?thesis
    using assms unfolding engine_ok_def sys ns eng eq .
qed

lemma engine_ok_sort_systems:
  assumes "engine_ok w e"
  shows "engine_ok (sort_systems e' w) e"
  using assms by (auto simp: engine_ok_def priority_of_simps(5) [abs_def])

lemma entities_ok_Engine_new: "entities_ok (Engine_new e c t w) e"
  by (simp add: entities_ok_def entities_of_def Engine_new_def Let_def)

lemma entities_ok_addEntity:
  assumes "entities_ok w e" and "addEntity inert e x w = Some (Inr w')"
  shows "entities_ok w' e"
proof (cases "x \<in> set (entities_of w e)")
  case True
  with assms show ?thesis
    by (simp add: addEntity_present entities_of_def)
next
  case False
  with assms addEntity_absent [of w e x] show ?thesis
    by (auto simp: entities_ok_def entities_of_def)
qed

lemma entities_ok_removeEntity:
  assumes "entities_ok w e" and "removeEntity inert e x w = Some (Inr w')"
  shows "entities_ok w' e"
  using assms
  by (auto simp: entities_ok_def entities_of_def removeEntity_def Let_def array_splice1_def
      notify_inert indexOf_absent splice1_indexOf split: if_splits)

lemma next_addr_frozen_slice: "next_addr (snd (frozen_slice a w)) = Suc (next_addr w)"
  by (simp add: frozen_slice_def Let_def)

lemma entities_ok_get_entities:
  assumes "entities_ok w e"
  shows "entities_ok (snd (get_entities e' w)) e"
  using assms
  by (auto simp: entities_ok_def entities_of_def get_entities_def frozen_slice_fields
      next_addr_frozen_slice)

lemma listeners_addEntityListener:
  "e_entityListeners (engine_of (addEntityListener e l w) e) =
     (if l \<in> set (e_entityListeners (engine_of w e)) then e_entityListeners (engine_of w e)
      else e_entityListeners (engine_of w e) @ [l])"
  by (simp add: addEntityListener_def indexOf_absent upd_engine_def)

lemma listeners_removeEntityListener:
  "e_entityListeners (engine_of (removeEntityListener e l w) e) =
     remove1 l (e_entityListeners (engine_of w e))"
  by (simp add: removeEntityListener_def Let_def indexOf_absent upd_engine_def
      splice1_indexOf remove1_idem)

lemma listener_ops_frame:
  "e_entities (engine_of (addEntityListener e l w) e') = e_entities (engine_of w e')"
  "e_entities (engine_of (removeEntityListener e l w) e') = e_entities (engine_of w e')"
  "next_addr (addEntityListener e l w) = next_addr w"
  "next_addr (removeEntityListener e l w) = next_addr w"
  "frozen (addEntityListener e l w) = frozen w"
  "frozen (removeEntityListener e l w) = frozen w"
  by (simp_all add: addEntityListener_def removeEntityListener_def upd_engine_def Let_def)

lemma entities_ok_listeners:
  assumes "entities_ok w e"
  shows "entities_ok (addEntityListener e l w) e" "entities_ok (removeEntityListener e l w) e"
  using assms
  by (simp_all add: entities_ok_def entities_of_def listeners_addEntityListener
      listeners_removeEntityListener listener_ops_frame)

end
